theory Spec2Isabelle
  imports Main "HOL-Library.Monad_Syntax" "HOL-Library.Sublist"
begin

section \<open>The result model of \<^verbatim>\<open>src/main.cpp\<close>\<close>

text \<open>
  \<^verbatim>\<open>struct ResultItem { string name; variant<string, vector<ResultItem>> value; }\<close>:
  the variant's alternative 0 (leaf text) is \<open>Inl\<close>, alternative 1 (child nodes) is \<open>Inr\<close>.
\<close>

datatype ResultItem = ResultItem (item_name: string) (item_value: "string + ResultItem list")

type_synonym ResultMap = "ResultItem list"

datatype ResultType = Success | Failure

record Result =
  status :: ResultType
  matched :: string
  rest :: string
  error :: string
  results :: ResultMap

definition failure :: "string \<Rightarrow> Result" where
  "failure err = \<lparr>status = Failure, matched = [], rest = [], error = err, results = []\<rparr>"

definition success :: "string \<Rightarrow> string \<Rightarrow> Result" where
  "success m r = \<lparr>status = Success, matched = m, rest = r, error = [], results = []\<rparr>"

definition isFailure :: "Result \<Rightarrow> bool" where
  "isFailure r = (status r = Failure)"

definition isSuccess :: "Result \<Rightarrow> bool" where
  "isSuccess r = (status r = Success)"

text \<open>The two overloads of \<^verbatim>\<open>Result::add\<close>; the object is passed and returned.\<close>

definition add_string :: "string \<Rightarrow> string \<Rightarrow> Result \<Rightarrow> Result" where
  "add_string nm v r =
     (if length v > 0 then r\<lparr>results := results r @ [ResultItem nm (Inl v)]\<rparr> else r)"

definition add_items :: "string \<Rightarrow> ResultMap \<Rightarrow> Result \<Rightarrow> Result" where
  "add_items nm v r = r\<lparr>results := results r @ [ResultItem nm (Inr v)]\<rparr>"

text \<open>\<^verbatim>\<open>Result::combine\<close>: one \<^verbatim>\<open>push_back\<close> per item of the other result.\<close>

definition combine :: "Result \<Rightarrow> Result \<Rightarrow> Result" where
  "combine r other = foldl (\<lambda>acc item. acc\<lparr>results := results acc @ [item]\<rparr>) r (results other)"

section \<open>Parsers\<close>

text \<open>
  \<^verbatim>\<open>using Parser = std::function<Result(string)>\<close>. A call of a parser may loop forever
  (the \<^verbatim>\<open>while (true)\<close> of \<^verbatim>\<open>many\<close> and \<^verbatim>\<open>many1\<close>), so a call yields
  \<open>Some result\<close> when it returns and \<open>None\<close> when it does not.
\<close>

type_synonym Parser = "string \<Rightarrow> Result option"

definition parseChar :: "char \<Rightarrow> Parser" where
  "parseChar ch = (\<lambda>source.
     if length source = 0 then Some (failure ''End of imput stream.'')
     else
       let firstChar = source ! 0 in
       if firstChar = ch then Some (success [firstChar] (drop 1 source))
       else Some (failure (''Expected '' @ [CHR 0x27] @ [ch] @ [CHR 0x27] @ '' but got ''
                            @ [CHR 0x27] @ [firstChar] @ [CHR 0x27])))"

definition andThen :: "Parser \<Rightarrow> Parser \<Rightarrow> Parser" where
  "andThen parser1 parser2 = (\<lambda>source.
     do {
       result1 \<leftarrow> parser1 source;
       if isFailure result1 then Some result1
       else do {
         result2 \<leftarrow> parser2 (rest result1);
         if isFailure result2 then Some result2
         else
           Some (combine (combine (success (matched result1 @ matched result2) (rest result2))
                            result1) result2)
       }
     })"

definition orElse :: "Parser \<Rightarrow> Parser \<Rightarrow> Parser" where
  "orElse parser1 parser2 = (\<lambda>source.
     do {
       result1 \<leftarrow> parser1 source;
       if isSuccess result1 then Some result1
       else do {
         result2 \<leftarrow> parser2 source;
         Some result2
       }
     })"

text \<open>
  \<^verbatim>\<open>operator[]\<close> of \<^verbatim>\<open>std::vector\<close> is unchecked: a read at an index that is not
  below the size has no defined result, which is \<open>None\<close> here.
\<close>

definition vector_at :: "'a list \<Rightarrow> nat \<Rightarrow> 'a option" where
  "vector_at xs i = (if i < length xs then Some (xs ! i) else None)"

text \<open>
  \<^verbatim>\<open>reduce\<close>: \<^verbatim>\<open>result = parsers[0]\<close>, then the loop from index 1. A combinator that is
  built by \<^verbatim>\<open>reduce\<close> is \<open>Some parser\<close> when every read was in bounds and \<open>None\<close> when
  a read had no defined result. The index \<^verbatim>\<open>int i\<close> is a natural number here: the
  vector is taken to hold fewer than \<open>2^31\<close> parsers.
\<close>

function reduce_loop ::
  "Parser list \<Rightarrow> (Parser \<Rightarrow> Parser \<Rightarrow> Parser) \<Rightarrow> nat \<Rightarrow> Parser \<Rightarrow> Parser option" where
  "reduce_loop parsers reducer i result =
     (if i < length parsers then
        do {
          p \<leftarrow> vector_at parsers i;
          reduce_loop parsers reducer (Suc i) (reducer result p)
        }
      else Some result)"
  by pat_completeness auto
termination
  by (relation "measure (\<lambda>(parsers, reducer, i, result). length parsers - i)") auto

definition reduce :: "Parser list \<Rightarrow> (Parser \<Rightarrow> Parser \<Rightarrow> Parser) \<Rightarrow> Parser option" where
  "reduce parsers reducer =
     do {
       first \<leftarrow> vector_at parsers 0;
       reduce_loop parsers reducer 1 first
     }"

definition mapWith :: "'a list \<Rightarrow> ('a \<Rightarrow> Parser) \<Rightarrow> Parser list" where
  "mapWith source mapper = foldl (\<lambda>result e. result @ [mapper e]) [] source"

definition choice :: "Parser list \<Rightarrow> Parser option" where
  "choice parsers = reduce parsers orElse"

text \<open>The overload \<^verbatim>\<open>anyOf(string)\<close>.\<close>

definition anyOf :: "string \<Rightarrow> Parser option" where
  "anyOf v = choice (mapWith v parseChar)"

definition parseString :: "string \<Rightarrow> Parser option" where
  "parseString v = reduce (mapWith v parseChar) andThen"

definition sequence :: "Parser list \<Rightarrow> Parser option" where
  "sequence parsers = reduce parsers andThen"

definition nullParser :: Parser where
  "nullParser = (\<lambda>source. Some (success [] source))"

definition opt :: "Parser \<Rightarrow> Parser option" where
  "opt parser = choice [parser, nullParser]"

text \<open>The loop of \<^verbatim>\<open>many\<close>, with its three local variables as arguments.\<close>

partial_function (option) many_loop ::
  "Parser \<Rightarrow> string \<Rightarrow> string \<Rightarrow> ResultMap \<Rightarrow> Result option" where
  [code]: "many_loop parser mtch input items =
     do {
       result \<leftarrow> parser input;
       if isFailure result then Some ((success mtch input)\<lparr>results := items\<rparr>)
       else
         many_loop parser (mtch @ matched result) (rest result)
           (if length (results result) > 0
            then items @ [ResultItem ''item'' (Inr (results result))] else items)
     }"

definition many :: "Parser \<Rightarrow> Parser" where
  "many parser = (\<lambda>source. many_loop parser [] source [])"

partial_function (option) many1_loop ::
  "Parser \<Rightarrow> string \<Rightarrow> string \<Rightarrow> Result option" where
  [code]: "many1_loop parser mtch input =
     do {
       result \<leftarrow> parser input;
       if isFailure result then
         (if length mtch = 0 then Some result else Some (success mtch input))
       else many1_loop parser (mtch @ matched result) (rest result)
     }"

definition many1 :: "Parser \<Rightarrow> Parser" where
  "many1 parser = (\<lambda>source. many1_loop parser [] source)"

definition takeLeft :: "Parser \<Rightarrow> Parser \<Rightarrow> Parser" where
  "takeLeft parser1 parser2 = (\<lambda>source.
     do {
       result1 \<leftarrow> parser1 source;
       result2 \<leftarrow> parser1 (rest result1);
       Some result2
     })"

definition mapTo :: "Parser \<Rightarrow> string \<Rightarrow> Parser" where
  "mapTo parser nm = (\<lambda>source.
     do {
       result \<leftarrow> parser source;
       if isSuccess result then
         (if length (results result) = 0 then Some (add_string nm (matched result) result)
          else Some (add_items nm (results result) (success (matched result) (rest result))))
       else Some result
     })"

definition listOf :: "Parser \<Rightarrow> Parser \<Rightarrow> char \<Rightarrow> Parser option" where
  "listOf whiteSpace parser separator =
     (let separatorParser = parseChar separator in
      do {
        first \<leftarrow> sequence [whiteSpace, parser];
        optFirst \<leftarrow> opt first;
        more \<leftarrow> sequence [whiteSpace, separatorParser, whiteSpace, parser];
        sequence [mapTo optFirst ''item'', many more]
      })"

text \<open>
  \<^verbatim>\<open>refParser\<close> captures a reference to a parser variable and, at each call, calls the
  parser that the variable holds; the argument is the parser held by the populated slot.
\<close>

definition refParser :: "Parser \<Rightarrow> Parser" where
  "refParser reference = (\<lambda>source. do { result \<leftarrow> reference source; Some result })"

section \<open>Notions used to state the properties\<close>

text \<open>
  A chain of parsers run in order after a first successful result \<open>acc\<close>: each parser is
  applied to the rest left by the chain so far; the first failure is the result of the
  chain; a success extends the matched text and the labelled results on the right.
\<close>

fun run_in_order :: "Result \<Rightarrow> Parser list \<Rightarrow> Result option" where
  "run_in_order acc [] = Some acc"
| "run_in_order acc (p # ps) =
     do {
       r \<leftarrow> p (rest acc);
       if isFailure r then Some r
       else run_in_order \<lparr>status = Success, matched = matched acc @ matched r, rest = rest r,
                           error = [], results = results acc @ results r\<rparr> ps
     }"

text \<open>
  Ordered alternation after a first result \<open>r\<close>: a success is final and no later
  alternative is called; after a failure the next alternative is applied to the same input
  and the failure is forgotten.
\<close>

fun first_success :: "Result \<Rightarrow> Parser list \<Rightarrow> string \<Rightarrow> Result option" where
  "first_success r [] s = Some r"
| "first_success r (p # ps) s =
     (if isSuccess r then Some r else do { r' \<leftarrow> p s; first_success r' ps s })"

text \<open>
  \<open>iterations p s rs\<close>: the results \<open>rs\<close> are those of successive successful applications
  of \<open>p\<close>, the first to \<open>s\<close> and each next one to the rest of the one before;
  \<open>reached s rs\<close> is the input that remains after them.
\<close>

fun iterations :: "Parser \<Rightarrow> string \<Rightarrow> Result list \<Rightarrow> bool" where
  "iterations p s [] = True"
| "iterations p s (r # rs) = (p s = Some r \<and> isSuccess r \<and> iterations p (rest r) rs)"

fun reached :: "string \<Rightarrow> Result list \<Rightarrow> string" where
  "reached s [] = s"
| "reached s (r # rs) = reached (rest r) rs"

text \<open>One node labelled \<open>item\<close> for each iteration whose results are not empty.\<close>

fun item_nodes :: "Result list \<Rightarrow> ResultMap" where
  "item_nodes [] = []"
| "item_nodes (r # rs) =
     (if results r = [] then item_nodes rs
      else ResultItem ''item'' (Inr (results r)) # item_nodes rs)"

text \<open>
  Every function from the input to a result is a \<^verbatim>\<open>Parser\<close>, also one that a client
  writes by hand. This one succeeds on the input \<open>x\<close> with the empty matched text and the
  rest \<open>y\<close>, and fails on every other input.
\<close>

definition emptyMatchParser :: Parser where
  "emptyMatchParser = (\<lambda>source.
     if source = ''x'' then Some (success [] ''y'') else Some (failure ''no''))"

text \<open>
  \<open>splits_input p\<close>: every success of \<open>p\<close> splits its input into the matched text
  and the rest.
\<close>

definition splits_input :: "Parser \<Rightarrow> bool" where
  "splits_input p = (\<forall>s r. p s = Some r \<longrightarrow> isSuccess r \<longrightarrow> matched r @ rest r = s)"

section \<open>Recursive rules and the parsers built from the combinators\<close>

text \<open>
  A recursive grammar is built in two phases: parser variables (slots) are declared, the
  body of each rule is built from combinators and from \<^verbatim>\<open>refParser\<close> of any of the slots,
  and each slot is then assigned its body. The slots are numbered here; \<open>bodies E i\<close> is
  the parser assigned to slot \<open>i\<close> when the slots hold the parsers \<open>E\<close>. A call of a
  slot runs its body, and each call of a reference inside it runs the slot referred to: the
  contents of the slots are the least parsers with \<open>E = bodies E\<close>, for self-recursive and
  for mutually recursive rules alike. A call that recurses for ever does not return (the
  call stack is taken to be unbounded).
\<close>

type_synonym Slots = "nat \<Rightarrow> Parser"

definition rule_slots :: "(Slots \<Rightarrow> Slots) \<Rightarrow> Slots" where
  "rule_slots bodies =
     curry (ccpo.fixp (fun_lub (flat_lub None)) (fun_ord (flat_ord None))
              (\<lambda>f. case_prod (bodies (curry f))))"

text \<open>\<open>returns_more p q\<close>: wherever \<open>p\<close> returns, \<open>q\<close> returns the same result.\<close>

definition returns_more :: "Parser \<Rightarrow> Parser \<Rightarrow> bool" where
  "returns_more p q = (\<forall>s r. p s = Some r \<longrightarrow> q s = Some r)"

text \<open>
  \<open>built p\<close>: the parser \<open>p\<close> is built from the exposed constructors and combinators
  (\<open>takeLeft\<close> is not one of them), where a combinator made by \<^verbatim>\<open>reduce\<close> counts when it
  is defined, and a slot is populated either with a parser built before or with a rule of
  a recursive grammar. \<open>built_body F\<close>: \<open>F E\<close> is built in the same way from parsers built
  before and from references to the slots, whose contents are \<open>E\<close>; all the slots that
  the rules of a grammar refer to form one system, as the parser variables of a program
  do. The overload \<^verbatim>\<open>anyOf(char, char)\<close> is \<open>choice\<close> of a list of \<open>parseChar\<close>
  parsers.
\<close>

inductive built :: "Parser \<Rightarrow> bool"
  and built_body :: "(Slots \<Rightarrow> Parser) \<Rightarrow> bool" where
  built_parseChar: "built (parseChar c)"
| built_anyOf: "anyOf v = Some p \<Longrightarrow> built p"
| built_parseString: "parseString v = Some p \<Longrightarrow> built p"
| built_andThen: "built pa \<Longrightarrow> built pb \<Longrightarrow> built (andThen pa pb)"
| built_sequence: "\<forall>q \<in> set ps. built q \<Longrightarrow> sequence ps = Some p \<Longrightarrow> built p"
| built_orElse: "built pa \<Longrightarrow> built pb \<Longrightarrow> built (orElse pa pb)"
| built_choice: "\<forall>q \<in> set ps. built q \<Longrightarrow> choice ps = Some p \<Longrightarrow> built p"
| built_many: "built q \<Longrightarrow> built (many q)"
| built_many1: "built q \<Longrightarrow> built (many1 q)"
| built_opt: "built q \<Longrightarrow> opt q = Some p \<Longrightarrow> built p"
| built_nullParser: "built nullParser"
| built_mapTo: "built q \<Longrightarrow> built (mapTo q n)"
| built_listOf: "built w \<Longrightarrow> built q \<Longrightarrow> listOf w q c = Some p \<Longrightarrow> built p"
| built_refParser: "built q \<Longrightarrow> built (refParser q)"
| built_rule_slots: "\<forall>j. built_body (\<lambda>E. bodies E j) \<Longrightarrow> built (rule_slots bodies i)"
| body_refParser: "built_body (\<lambda>E. refParser (E i))"
| body_const: "built p \<Longrightarrow> built_body (\<lambda>E. p)"
| body_andThen: "built_body A \<Longrightarrow> built_body B \<Longrightarrow> built_body (\<lambda>E. andThen (A E) (B E))"
| body_sequence:
    "\<forall>A \<in> set As. built_body A \<Longrightarrow> \<forall>E. sequence (map (\<lambda>A. A E) As) = Some (F E) \<Longrightarrow>
     built_body F"
| body_orElse: "built_body A \<Longrightarrow> built_body B \<Longrightarrow> built_body (\<lambda>E. orElse (A E) (B E))"
| body_choice:
    "\<forall>A \<in> set As. built_body A \<Longrightarrow> \<forall>E. choice (map (\<lambda>A. A E) As) = Some (F E) \<Longrightarrow>
     built_body F"
| body_many: "built_body A \<Longrightarrow> built_body (\<lambda>E. many (A E))"
| body_many1: "built_body A \<Longrightarrow> built_body (\<lambda>E. many1 (A E))"
| body_opt: "built_body A \<Longrightarrow> \<forall>E. opt (A E) = Some (F E) \<Longrightarrow> built_body F"
| body_mapTo: "built_body A \<Longrightarrow> built_body (\<lambda>E. mapTo (A E) n)"
| body_listOf:
    "built_body W \<Longrightarrow> built_body A \<Longrightarrow> \<forall>E. listOf (W E) (A E) c = Some (F E) \<Longrightarrow>
     built_body F"

section \<open>Basic facts\<close>

lemma isSuccess_iff: "isSuccess r \<longleftrightarrow> \<not> isFailure r"
  by (cases "status r") (simp_all add: isSuccess_def isFailure_def)

lemma combine_fold:
  "foldl (\<lambda>acc item. acc\<lparr>results := results acc @ [item]\<rparr>) r xs = r\<lparr>results := results r @ xs\<rparr>"
  by (induction xs arbitrary: r) simp_all

lemma combine_eq: "combine r other = r\<lparr>results := results r @ results other\<rparr>"
  by (simp add: combine_def combine_fold)

lemma mapWith_fold: "foldl (\<lambda>result e. result @ [mapper e]) acc source = acc @ map mapper source"
  by (induction source arbitrary: acc) simp_all

lemma mapWith_eq: "mapWith source mapper = map mapper source"
  by (simp add: mapWith_def mapWith_fold)

lemma reduce_loop_eq:
  "i \<le> length parsers \<Longrightarrow>
   reduce_loop parsers reducer i result = Some (foldl reducer result (drop i parsers))"
proof (induction parsers reducer i result rule: reduce_loop.induct)
  case (1 parsers reducer i result)
  show ?case
  proof (cases "i < length parsers")
    case True
    then have d: "drop i parsers = parsers ! i # drop (Suc i) parsers"
      by (simp add: Cons_nth_drop_Suc)
    from True have v: "vector_at parsers i = Some (parsers ! i)"
      by (simp add: vector_at_def)
    from True have "reduce_loop parsers reducer (Suc i) (reducer result (parsers ! i))
        = Some (foldl reducer (reducer result (parsers ! i)) (drop (Suc i) parsers))"
      using "1.IH" [OF True v] by simp
    with True v d show ?thesis by simp
  next
    case False
    with "1.prems" show ?thesis by simp
  qed
qed

lemma reduce_loop_defined: "reduce_loop parsers reducer i result \<noteq> None"
proof (cases "i \<le> length parsers")
  case True
  then show ?thesis by (simp add: reduce_loop_eq del: reduce_loop.simps)
next
  case False
  then show ?thesis by simp
qed

lemma reduce_Nil: "reduce [] reducer = None"
  by (simp add: reduce_def vector_at_def)

lemma reduce_Cons: "reduce (p # ps) reducer = Some (foldl reducer p ps)"
  by (simp add: reduce_def vector_at_def reduce_loop_eq del: reduce_loop.simps)

lemma andThen_apply:
  "andThen p1 p2 s =
     p1 s \<bind> (\<lambda>r1. if isFailure r1 then Some r1
       else p2 (rest r1) \<bind> (\<lambda>r2. if isFailure r2 then Some r2
         else Some \<lparr>status = Success, matched = matched r1 @ matched r2, rest = rest r2,
                    error = [], results = results r1 @ results r2\<rparr>))"
  by (simp add: andThen_def combine_eq success_def cong: if_cong Option.bind_cong)

lemma foldl_andThen:
  "foldl andThen q ps s = q s \<bind> (\<lambda>r. if isFailure r then Some r else run_in_order r ps)"
proof (induction ps arbitrary: q)
  case Nil
  show ?case by (cases "q s") simp_all
next
  case (Cons p ps)
  have "foldl andThen q (p # ps) s = foldl andThen (andThen q p) ps s"
    by simp
  also have "\<dots> = andThen q p s \<bind> (\<lambda>r. if isFailure r then Some r else run_in_order r ps)"
    by (rule Cons.IH)
  also have "\<dots> = q s \<bind> (\<lambda>r. if isFailure r then Some r else run_in_order r (p # ps))"
  proof (cases "q s")
    case None
    then show ?thesis by (simp add: andThen_apply)
  next
    case (Some r1)
    show ?thesis
    proof (cases "isFailure r1")
      case True
      with Some show ?thesis by (simp add: andThen_apply)
    next
      case False
      with Some show ?thesis
        by (cases "p (rest r1)") (simp_all add: andThen_apply isFailure_def)
    qed
  qed
  finally show ?case .
qed

lemma first_success_done: "isSuccess r \<Longrightarrow> first_success r ps s = Some r"
  by (cases ps) simp_all

lemma orElse_apply:
  "orElse p1 p2 s = p1 s \<bind> (\<lambda>r1. if isSuccess r1 then Some r1 else p2 s)"
  by (simp add: orElse_def cong: if_cong Option.bind_cong)

lemma foldl_orElse: "foldl orElse q ps s = q s \<bind> (\<lambda>r. first_success r ps s)"
proof (induction ps arbitrary: q)
  case Nil
  show ?case by (cases "q s") simp_all
next
  case (Cons p ps)
  have "foldl orElse q (p # ps) s = foldl orElse (orElse q p) ps s"
    by simp
  also have "\<dots> = orElse q p s \<bind> (\<lambda>r. first_success r ps s)"
    by (rule Cons.IH)
  also have "\<dots> = q s \<bind> (\<lambda>r. first_success r (p # ps) s)"
  proof (cases "q s")
    case None
    then show ?thesis by (simp add: orElse_apply)
  next
    case (Some r1)
    then show ?thesis by (simp add: orElse_apply first_success_done)
  qed
  finally show ?case .
qed

lemma opt_eq: "opt q = Some (orElse q nullParser)"
  by (simp add: opt_def choice_def reduce_Cons)


lemma splits_parseChar: "splits_input (parseChar c)"
  unfolding splits_input_def
proof (intro allI impI)
  fix s r
  assume "parseChar c s = Some r" "isSuccess r"
  then show "matched r @ rest r = s"
    by (cases s) (auto simp add: parseChar_def Let_def success_def failure_def isSuccess_def
        split: if_splits)
qed


subsection \<open>The loop of \<^verbatim>\<open>many\<close>\<close>

lemma many_loop_None: "p i = None \<Longrightarrow> many_loop p m i its = None"
  by (subst many_loop.simps) simp

lemma many_loop_fail:
  "p i = Some f \<Longrightarrow> isFailure f \<Longrightarrow>
   many_loop p m i its = Some \<lparr>status = Success, matched = m, rest = i, error = [], results = its\<rparr>"
  by (subst many_loop.simps) (simp add: success_def)

lemma many_loop_step:
  "p i = Some r \<Longrightarrow> isSuccess r \<Longrightarrow>
   many_loop p m i its = many_loop p (m @ matched r) (rest r) (its @ item_nodes [r])"
  by (subst many_loop.simps) (simp add: isSuccess_iff)

lemma item_nodes_append: "item_nodes (xs @ ys) = item_nodes xs @ item_nodes ys"
  by (induction xs) simp_all

lemma many_loop_iterations:
  "iterations p s rs \<Longrightarrow> p (reached s rs) = Some f \<Longrightarrow> isFailure f \<Longrightarrow>
   many_loop p m s its =
     Some \<lparr>status = Success, matched = m @ concat (map matched rs), rest = reached s rs,
           error = [], results = its @ item_nodes rs\<rparr>"
proof (induction rs arbitrary: s m its)
  case Nil
  then show ?case by (simp add: many_loop_fail)
next
  case (Cons r rs)
  from Cons.prems have r: "p s = Some r" "isSuccess r" and it: "iterations p (rest r) rs"
    and f: "p (reached (rest r) rs) = Some f"
    by simp_all
  have "many_loop p m s its = many_loop p (m @ matched r) (rest r) (its @ item_nodes [r])"
    using r by (rule many_loop_step)
  also have "\<dots> = Some \<lparr>status = Success, matched = (m @ matched r) @ concat (map matched rs),
      rest = reached (rest r) rs, error = [], results = (its @ item_nodes [r]) @ item_nodes rs\<rparr>"
    using it f Cons.prems(3) by (rule Cons.IH)
  finally show ?case by simp
qed

lemma many_loop_returns:
  assumes "many_loop p m s its = Some y"
  shows "\<exists>rs f. iterations p s rs \<and> p (reached s rs) = Some f \<and> isFailure f"
proof (rule many_loop.raw_induct
    [where P = "\<lambda>p m s its y. \<exists>rs f. iterations p s rs \<and> p (reached s rs) = Some f \<and> isFailure f",
     OF _ assms])
  fix loop :: "Parser \<Rightarrow> string \<Rightarrow> string \<Rightarrow> ResultMap \<Rightarrow> Result option"
  fix p m s its y
  assume IH: "\<And>p m s its y. loop p m s its = Some y \<Longrightarrow>
      \<exists>rs f. iterations p s rs \<and> p (reached s rs) = Some f \<and> isFailure f"
  assume body: "p s \<bind> (\<lambda>result.
      if isFailure result then Some (success m s\<lparr>results := its\<rparr>)
      else loop p (m @ matched result) (rest result)
             (if 0 < length (results result)
              then its @ [ResultItem ''item'' (Inr (results result))] else its)) = Some y"
  show "\<exists>rs f. iterations p s rs \<and> p (reached s rs) = Some f \<and> isFailure f"
  proof (cases "p s")
    case None
    with body show ?thesis by simp
  next
    case (Some r)
    show ?thesis
    proof (cases "isFailure r")
      case True
      with Some have "iterations p s [] \<and> p (reached s []) = Some r \<and> isFailure r" by simp
      then show ?thesis by blast
    next
      case False
      with Some body obtain m' its' where "loop p m' (rest r) its' = Some y"
        by simp
      from IH [OF this] obtain rs f where
        "iterations p (rest r) rs" "p (reached (rest r) rs) = Some f" "isFailure f"
        by blast
      with Some False have
        "iterations p s (r # rs) \<and> p (reached s (r # rs)) = Some f \<and> isFailure f"
        by (simp add: isSuccess_iff)
      then show ?thesis by blast
    qed
  qed
qed

lemma many_loop_stuck_here:
  assumes "many_loop p m s its = Some y"
  shows "\<not> (\<exists>r. p s = Some r \<and> isSuccess r \<and> rest r = s)"
proof (rule many_loop.raw_induct
    [where P = "\<lambda>p m s its y. \<not> (\<exists>r. p s = Some r \<and> isSuccess r \<and> rest r = s)", OF _ assms])
  fix loop :: "Parser \<Rightarrow> string \<Rightarrow> string \<Rightarrow> ResultMap \<Rightarrow> Result option"
  fix p m s its y
  assume IH: "\<And>p m s its y. loop p m s its = Some y \<Longrightarrow>
      \<not> (\<exists>r. p s = Some r \<and> isSuccess r \<and> rest r = s)"
  assume body: "p s \<bind> (\<lambda>result.
      if isFailure result then Some (success m s\<lparr>results := its\<rparr>)
      else loop p (m @ matched result) (rest result)
             (if 0 < length (results result)
              then its @ [ResultItem ''item'' (Inr (results result))] else its)) = Some y"
  show "\<not> (\<exists>r. p s = Some r \<and> isSuccess r \<and> rest r = s)"
  proof
    assume "\<exists>r. p s = Some r \<and> isSuccess r \<and> rest r = s"
    then obtain r where r: "p s = Some r" "isSuccess r" "rest r = s"
      by blast
    with body obtain m' its' where "loop p m' s its' = Some y"
      by (simp add: isSuccess_iff)
    from IH [OF this] r show False by blast
  qed
qed

lemma many_loop_stuck:
  "iterations p s rs \<Longrightarrow> p (reached s rs) = Some r \<Longrightarrow> isSuccess r \<Longrightarrow>
   rest r = reached s rs \<Longrightarrow> many_loop p m s its = None"
proof (induction rs arbitrary: s m its)
  case Nil
  then show ?case using many_loop_stuck_here [of p m s its]
    by (cases "many_loop p m s its") auto
next
  case (Cons a rs)
  then show ?case by (simp add: many_loop_step)
qed


subsection \<open>The loop of \<^verbatim>\<open>many1\<close>\<close>

lemma many1_loop_None: "p i = None \<Longrightarrow> many1_loop p m i = None"
  by (subst many1_loop.simps) simp

lemma many1_loop_fail:
  "p i = Some f \<Longrightarrow> isFailure f \<Longrightarrow>
   many1_loop p m i =
     Some (if m = [] then f
           else \<lparr>status = Success, matched = m, rest = i, error = [], results = []\<rparr>)"
  by (subst many1_loop.simps) (simp add: success_def)

lemma many1_loop_step:
  "p i = Some r \<Longrightarrow> isSuccess r \<Longrightarrow> many1_loop p m i = many1_loop p (m @ matched r) (rest r)"
  by (subst many1_loop.simps) (simp add: isSuccess_iff)

lemma many1_loop_iterations:
  "iterations p s rs \<Longrightarrow> p (reached s rs) = Some f \<Longrightarrow> isFailure f \<Longrightarrow>
   many1_loop p m s =
     Some (if m @ concat (map matched rs) = [] then f
           else \<lparr>status = Success, matched = m @ concat (map matched rs), rest = reached s rs,
                 error = [], results = []\<rparr>)"
proof (induction rs arbitrary: s m)
  case Nil
  then show ?case by (simp add: many1_loop_fail)
next
  case (Cons r rs)
  from Cons.prems have r: "p s = Some r" "isSuccess r" and it: "iterations p (rest r) rs"
    and f: "p (reached (rest r) rs) = Some f"
    by simp_all
  have "many1_loop p m s = many1_loop p (m @ matched r) (rest r)"
    using r by (rule many1_loop_step)
  also have "\<dots> = Some (if (m @ matched r) @ concat (map matched rs) = [] then f
           else \<lparr>status = Success, matched = (m @ matched r) @ concat (map matched rs),
                 rest = reached (rest r) rs, error = [], results = []\<rparr>)"
    using it f Cons.prems(3) by (rule Cons.IH)
  finally show ?case by simp
qed

lemma many1_loop_returns:
  assumes "many1_loop p m s = Some y"
  shows "\<exists>rs f. iterations p s rs \<and> p (reached s rs) = Some f \<and> isFailure f"
proof (rule many1_loop.raw_induct
    [where P = "\<lambda>p m s y. \<exists>rs f. iterations p s rs \<and> p (reached s rs) = Some f \<and> isFailure f",
     OF _ assms])
  fix loop :: "Parser \<Rightarrow> string \<Rightarrow> string \<Rightarrow> Result option"
  fix p m s y
  assume IH: "\<And>p m s y. loop p m s = Some y \<Longrightarrow>
      \<exists>rs f. iterations p s rs \<and> p (reached s rs) = Some f \<and> isFailure f"
  assume body: "p s \<bind> (\<lambda>result.
      if isFailure result
      then if length m = 0 then Some result else Some (success m s)
      else loop p (m @ matched result) (rest result)) = Some y"
  show "\<exists>rs f. iterations p s rs \<and> p (reached s rs) = Some f \<and> isFailure f"
  proof (cases "p s")
    case None
    with body show ?thesis by simp
  next
    case (Some r)
    show ?thesis
    proof (cases "isFailure r")
      case True
      with Some have "iterations p s [] \<and> p (reached s []) = Some r \<and> isFailure r" by simp
      then show ?thesis by blast
    next
      case False
      with Some body have "loop p (m @ matched r) (rest r) = Some y"
        by simp
      from IH [OF this] obtain rs f where
        "iterations p (rest r) rs" "p (reached (rest r) rs) = Some f" "isFailure f"
        by blast
      with Some False have
        "iterations p s (r # rs) \<and> p (reached s (r # rs)) = Some f \<and> isFailure f"
        by (simp add: isSuccess_iff)
      then show ?thesis by blast
    qed
  qed
qed

lemma many1_loop_stuck_here:
  assumes "many1_loop p m s = Some y"
  shows "\<not> (\<exists>r. p s = Some r \<and> isSuccess r \<and> rest r = s)"
proof (rule many1_loop.raw_induct
    [where P = "\<lambda>p m s y. \<not> (\<exists>r. p s = Some r \<and> isSuccess r \<and> rest r = s)", OF _ assms])
  fix loop :: "Parser \<Rightarrow> string \<Rightarrow> string \<Rightarrow> Result option"
  fix p m s y
  assume IH: "\<And>p m s y. loop p m s = Some y \<Longrightarrow>
      \<not> (\<exists>r. p s = Some r \<and> isSuccess r \<and> rest r = s)"
  assume body: "p s \<bind> (\<lambda>result.
      if isFailure result
      then if length m = 0 then Some result else Some (success m s)
      else loop p (m @ matched result) (rest result)) = Some y"
  show "\<not> (\<exists>r. p s = Some r \<and> isSuccess r \<and> rest r = s)"
  proof
    assume "\<exists>r. p s = Some r \<and> isSuccess r \<and> rest r = s"
    then obtain r where r: "p s = Some r" "isSuccess r" "rest r = s"
      by blast
    with body have "loop p (m @ matched r) s = Some y"
      by (simp add: isSuccess_iff)
    from IH [OF this] r show False by blast
  qed
qed

lemma many1_loop_stuck:
  "iterations p s rs \<Longrightarrow> p (reached s rs) = Some r \<Longrightarrow> isSuccess r \<Longrightarrow>
   rest r = reached s rs \<Longrightarrow> many1_loop p m s = None"
proof (induction rs arbitrary: s m)
  case Nil
  then show ?case using many1_loop_stuck_here [of p m s]
    by (cases "many1_loop p m s") auto
next
  case (Cons a rs)
  then show ?case by (simp add: many1_loop_step)
qed



section \<open>The character parser\<close>

text \<open>
  C7. For every character \<open>c\<close>, \<open>parseChar c\<close> fails on the empty input with the
  end-of-input message; on an input that starts with \<open>c\<close> it succeeds with the
  one-character string \<open>c\<close> as matched text and the input without its first character
  as rest; on a non-empty input that starts with another character \<open>d\<close> it fails with a
  message that names \<open>c\<close>, the expected character, and \<open>d\<close>, the actual one.
\<close>

theorem parseChar_cases:
  "parseChar c [] =
     Some \<lparr>status = Failure, matched = [], rest = [], error = ''End of imput stream.'',
           results = []\<rparr>
   \<and> parseChar c (c # s) =
       Some \<lparr>status = Success, matched = [c], rest = s, error = [], results = []\<rparr>
   \<and> (d \<noteq> c \<longrightarrow>
        parseChar c (d # s) =
          Some \<lparr>status = Failure, matched = [], rest = [],
                error = ''Expected '' @ [CHR 0x27, c, CHR 0x27] @ '' but got ''
                          @ [CHR 0x27, d, CHR 0x27],
                results = []\<rparr>)"
  by (simp add: parseChar_def success_def failure_def)

theorem parseChar_cases_witness:
  "CHR ''b'' \<noteq> CHR ''a''
   \<and> parseChar CHR ''a'' ''bc'' =
       Some \<lparr>status = Failure, matched = [], rest = [],
             error = ''Expected '' @ [CHR 0x27, CHR ''a'', CHR 0x27] @ '' but got ''
                       @ [CHR 0x27, CHR ''b'', CHR 0x27],
             results = []\<rparr>
   \<and> parseChar CHR ''a'' ''ac'' =
       Some \<lparr>status = Success, matched = ''a'', rest = ''c'', error = [], results = []\<rparr>"
  using parseChar_cases [of "CHR ''a''" "''c''" "CHR ''b''"] by simp

section \<open>\<^verbatim>\<open>takeLeft\<close>\<close>

text \<open>
  C8. For all parsers \<open>p1\<close>, \<open>p2\<close> and every input, \<open>takeLeft p1 p2\<close> applies \<open>p1\<close> to the
  input, then applies \<open>p1\<close> again to the \<open>rest\<close> field of that first result, whatever the
  status of the first result is, and returns the second result; \<open>p2\<close> is never called (the
  right-hand side does not mention it). So, when \<open>parseChar a\<close> fails on the input \<open>ba\<close>,
  it is applied again to the empty rest of that failure, and the end-of-input failure is
  the result.
\<close>

theorem takeLeft_runs_first_twice:
  "takeLeft p1 p2 s = p1 s \<bind> (\<lambda>result1. p1 (rest result1))
   \<and> takeLeft (parseChar CHR ''a'') p2 ''ba'' = Some (failure ''End of imput stream.'')"
  by (simp add: takeLeft_def parseChar_def Let_def failure_def)

section \<open>\<^verbatim>\<open>reduce\<close> and the bounds of its reads\<close>

text \<open>
  C10. \<open>reduce\<close> reads \<open>parsers[0]\<close> unchecked. On a non-empty list that read is in
  bounds and \<open>reduce\<close> is the left fold of the reducer from the first parser, so
  \<open>sequence\<close> and \<open>choice\<close> of a non-empty list, and \<open>parseString\<close> and \<open>anyOf\<close> of a
  non-empty string, are defined; the reads of the loop are never out of bounds. On the empty
  list the read of \<open>parsers[0]\<close> has no defined result, and so have \<open>parseString\<close> and
  \<open>anyOf\<close> of the empty string.
\<close>

theorem reduce_bounds:
  "(ps \<noteq> [] \<longrightarrow>
      vector_at ps 0 = Some (hd ps) \<and> reduce ps f = Some (foldl f (hd ps) (tl ps))
      \<and> sequence ps \<noteq> None \<and> choice ps \<noteq> None)
   \<and> (v \<noteq> [] \<longrightarrow> parseString v \<noteq> None \<and> anyOf v \<noteq> None)
   \<and> reduce_loop ps f i r \<noteq> None
   \<and> vector_at ([] :: Parser list) 0 = None
   \<and> reduce [] f = None \<and> sequence [] = None \<and> choice [] = None
   \<and> parseString [] = None \<and> anyOf [] = None"
proof -
  have a: "ps \<noteq> [] \<longrightarrow>
      vector_at ps 0 = Some (hd ps) \<and> reduce ps f = Some (foldl f (hd ps) (tl ps))
      \<and> sequence ps \<noteq> None \<and> choice ps \<noteq> None"
    by (cases ps) (simp_all add: reduce_Cons sequence_def choice_def vector_at_def)
  have b: "v \<noteq> [] \<longrightarrow> parseString v \<noteq> None \<and> anyOf v \<noteq> None"
    by (cases v) (simp_all add: parseString_def anyOf_def choice_def mapWith_eq reduce_Cons)
  have c: "reduce [] f = None \<and> sequence [] = None \<and> choice [] = None
      \<and> parseString [] = None \<and> anyOf [] = None \<and> vector_at ([] :: Parser list) 0 = None"
    by (simp add: parseString_def anyOf_def choice_def sequence_def mapWith_eq reduce_Nil
        vector_at_def)
  from a b c reduce_loop_defined show ?thesis by blast
qed

theorem reduce_bounds_witness:
  "[parseChar CHR ''a'', parseChar CHR ''b''] \<noteq> [] \<and> ''ab'' \<noteq> []
   \<and> reduce [parseChar CHR ''a'', parseChar CHR ''b''] andThen
       = Some (andThen (parseChar CHR ''a'') (parseChar CHR ''b''))
   \<and> parseString ''ab'' \<noteq> None \<and> anyOf ''ab'' \<noteq> None"
  using reduce_bounds [of "[parseChar CHR ''a'', parseChar CHR ''b'']" andThen "''ab''"]
  by simp

section \<open>Sequencing\<close>

text \<open>
  C1. For all parsers \<open>pa\<close>, \<open>pb\<close> and every input \<open>s\<close>: \<open>andThen pa pb\<close> runs \<open>pa\<close> on
  \<open>s\<close> and returns the failure of \<open>pa\<close> unchanged; after a success of \<open>pa\<close> it runs \<open>pb\<close>
  on the rest of \<open>pa\<close> and returns the failure of \<open>pb\<close>; when both succeed it returns a
  success whose matched text is that of \<open>pa\<close> followed by that of \<open>pb\<close>, whose rest is
  that of \<open>pb\<close> and whose results are those of \<open>pa\<close> followed by those of \<open>pb\<close>.
  \<open>sequence\<close> of a non-empty list is the left fold of \<open>andThen\<close>, and it runs its parsers
  in order, each on the rest of the ones before, up to the first failure.
\<close>

theorem andThen_sequence_spec:
  "(pa s = Some ra \<and> isFailure ra \<longrightarrow> andThen pa pb s = Some ra)
   \<and> (pa s = Some ra \<and> isSuccess ra \<and> pb (rest ra) = Some rb \<and> isFailure rb \<longrightarrow>
        andThen pa pb s = Some rb)
   \<and> (pa s = Some ra \<and> isSuccess ra \<and> pb (rest ra) = Some rb \<and> isSuccess rb \<longrightarrow>
        andThen pa pb s =
          Some \<lparr>status = Success, matched = matched ra @ matched rb, rest = rest rb,
                error = [], results = results ra @ results rb\<rparr>)
   \<and> sequence (p # ps) = Some (foldl andThen p ps)
   \<and> (sequence (p # ps) = Some q \<longrightarrow>
        q s = p s \<bind> (\<lambda>r. if isFailure r then Some r else run_in_order r ps))"
  by (auto simp add: andThen_apply isSuccess_iff sequence_def reduce_Cons foldl_andThen)

theorem andThen_sequence_spec_witness:
  "andThen (parseChar CHR ''a'') (parseChar CHR ''b'') ''bb'' = parseChar CHR ''a'' ''bb''
   \<and> isFailure (the (parseChar CHR ''a'' ''bb''))
   \<and> andThen (parseChar CHR ''a'') (parseChar CHR ''b'') ''aa'' = parseChar CHR ''b'' ''a''
   \<and> isFailure (the (parseChar CHR ''b'' ''a''))
   \<and> andThen (mapTo (parseChar CHR ''a'') ''x'') (mapTo (parseChar CHR ''b'') ''y'') ''abc'' =
       Some \<lparr>status = Success, matched = ''ab'', rest = ''c'', error = [],
             results = [ResultItem ''x'' (Inl ''a''), ResultItem ''y'' (Inl ''b'')]\<rparr>
   \<and> sequence [parseChar CHR ''a'', parseChar CHR ''b'', parseChar CHR ''c''] =
       Some (foldl andThen (parseChar CHR ''a'') [parseChar CHR ''b'', parseChar CHR ''c''])
   \<and> foldl andThen (parseChar CHR ''a'') [parseChar CHR ''b'', parseChar CHR ''c''] ''abcd'' =
       Some \<lparr>status = Success, matched = ''abc'', rest = ''d'', error = [], results = []\<rparr>"
proof -
  let ?a = "parseChar CHR ''a''" and ?b = "parseChar CHR ''b''" and ?c = "parseChar CHR ''c''"
  let ?x = "mapTo ?a ''x''" and ?y = "mapTo ?b ''y''"
  let ?q = "foldl andThen ?a [?b, ?c]"
  let ?fa = "failure (''Expected '' @ [CHR 0x27, CHR ''a'', CHR 0x27] @ '' but got ''
                        @ [CHR 0x27, CHR ''b'', CHR 0x27])"
  let ?fb = "failure (''Expected '' @ [CHR 0x27, CHR ''b'', CHR 0x27] @ '' but got ''
                        @ [CHR 0x27, CHR ''a'', CHR 0x27])"
  let ?sa = "\<lparr>status = Success, matched = ''a'', rest = ''a'', error = [], results = []\<rparr>"
  let ?xa = "\<lparr>status = Success, matched = ''a'', rest = ''bc'', error = [],
              results = [ResultItem ''x'' (Inl ''a'')]\<rparr>"
  let ?yb = "\<lparr>status = Success, matched = ''b'', rest = ''c'', error = [],
              results = [ResultItem ''y'' (Inl ''b'')]\<rparr>"
  have e1: "?a ''bb'' = Some ?fa" "isFailure ?fa"
    by (simp_all add: parseChar_def Let_def failure_def isFailure_def)
  have e2: "?a ''aa'' = Some ?sa" "isSuccess ?sa" "?b (rest ?sa) = Some ?fb" "isFailure ?fb"
    by (simp_all add: parseChar_def Let_def success_def failure_def isFailure_def isSuccess_def)
  have e3: "?x ''abc'' = Some ?xa" "isSuccess ?xa" "?y (rest ?xa) = Some ?yb" "isSuccess ?yb"
    by (simp_all add: mapTo_def parseChar_def Let_def success_def add_string_def isSuccess_def)
  have e4: "?a ''abcd'' \<bind> (\<lambda>r. if isFailure r then Some r else run_in_order r [?b, ?c]) =
      Some \<lparr>status = Success, matched = ''abc'', rest = ''d'', error = [], results = []\<rparr>"
    by (simp add: parseChar_def Let_def success_def isFailure_def)
  have c1: "andThen ?a ?b ''bb'' = Some ?fa"
    using andThen_sequence_spec [of ?a "''bb''" ?fa ?b ?fa ?a "[]" ?a] e1 by blast
  have c2: "andThen ?a ?b ''aa'' = Some ?fb"
    using andThen_sequence_spec [of ?a "''aa''" ?sa ?b ?fb ?a "[]" ?a] e2 by blast
  have c3: "andThen ?x ?y ''abc'' =
      Some \<lparr>status = Success, matched = matched ?xa @ matched ?yb, rest = rest ?yb,
            error = [], results = results ?xa @ results ?yb\<rparr>"
    using andThen_sequence_spec [of ?x "''abc''" ?xa ?y ?yb ?a "[]" ?a] e3 by blast
  have c4: "sequence [?a, ?b, ?c] = Some ?q"
    and c5: "?q ''abcd'' =
       ?a ''abcd'' \<bind> (\<lambda>r. if isFailure r then Some r else run_in_order r [?b, ?c])"
    using andThen_sequence_spec [of ?a "''abcd''" ?fa ?b ?fa ?a "[?b, ?c]" ?q] by blast+
  from c1 c2 c3 c4 c5 e1 e2 e4 show ?thesis by simp
qed

section \<open>Ordered alternation\<close>

text \<open>
  C2. For all parsers \<open>pa\<close>, \<open>pb\<close> and every input \<open>s\<close>: when \<open>pa\<close> succeeds on \<open>s\<close>,
  \<open>orElse pa pb\<close> returns the result of \<open>pa\<close> as it is, whatever \<open>pb\<close> is (\<open>pb\<close> is not
  called); when \<open>pa\<close> fails, \<open>orElse pa pb\<close> is \<open>pb\<close> on the same input \<open>s\<close>, success or
  failure, and nothing of the failure of \<open>pa\<close> remains. \<open>choice\<close> of a non-empty list is
  the left fold of \<open>orElse\<close>: the first success wins, otherwise the last failure.
\<close>

theorem orElse_choice_spec:
  "(pa s = Some ra \<and> isSuccess ra \<longrightarrow> orElse pa pb s = Some ra)
   \<and> (pa s = Some ra \<and> isFailure ra \<longrightarrow> orElse pa pb s = pb s)
   \<and> choice (p # ps) = Some (foldl orElse p ps)
   \<and> (choice (p # ps) = Some q \<longrightarrow> q s = p s \<bind> (\<lambda>r. first_success r ps s))"
  by (auto simp add: orElse_apply isSuccess_iff choice_def reduce_Cons foldl_orElse)

theorem orElse_choice_spec_witness:
  "orElse (parseChar CHR ''a'') (many nullParser) ''ab'' = parseChar CHR ''a'' ''ab''
   \<and> isSuccess (the (parseChar CHR ''a'' ''ab''))
   \<and> orElse (parseChar CHR ''a'') (parseChar CHR ''b'') ''bc'' = parseChar CHR ''b'' ''bc''
   \<and> orElse (parseChar CHR ''a'') (parseChar CHR ''b'') ''c'' = parseChar CHR ''b'' ''c''
   \<and> isFailure (the (parseChar CHR ''a'' ''bc'')) \<and> isFailure (the (parseChar CHR ''a'' ''c''))
   \<and> choice [parseChar CHR ''a'', parseChar CHR ''b'', parseChar CHR ''c''] =
       Some (foldl orElse (parseChar CHR ''a'') [parseChar CHR ''b'', parseChar CHR ''c''])
   \<and> foldl orElse (parseChar CHR ''a'') [parseChar CHR ''b'', parseChar CHR ''c''] ''ba'' =
       Some \<lparr>status = Success, matched = ''b'', rest = ''a'', error = [], results = []\<rparr>"
proof -
  let ?a = "parseChar CHR ''a''" and ?b = "parseChar CHR ''b''" and ?c = "parseChar CHR ''c''"
  let ?q = "foldl orElse ?a [?b, ?c]"
  let ?sa = "\<lparr>status = Success, matched = ''a'', rest = ''b'', error = [], results = []\<rparr>"
  let ?fb = "failure (''Expected '' @ [CHR 0x27, CHR ''a'', CHR 0x27] @ '' but got ''
                        @ [CHR 0x27, CHR ''b'', CHR 0x27])"
  let ?fc = "failure (''Expected '' @ [CHR 0x27, CHR ''a'', CHR 0x27] @ '' but got ''
                        @ [CHR 0x27, CHR ''c'', CHR 0x27])"
  have e1: "?a ''ab'' = Some ?sa" "isSuccess ?sa"
    by (simp_all add: parseChar_def Let_def success_def isSuccess_def)
  have e2: "?a ''bc'' = Some ?fb" "isFailure ?fb" "?a ''c'' = Some ?fc" "isFailure ?fc"
    by (simp_all add: parseChar_def Let_def failure_def isFailure_def)
  have e3: "?a ''ba'' \<bind> (\<lambda>r. first_success r [?b, ?c] ''ba'') =
      Some \<lparr>status = Success, matched = ''b'', rest = ''a'', error = [], results = []\<rparr>"
    by (simp add: parseChar_def Let_def success_def failure_def isSuccess_def)
  have c1: "orElse ?a (many nullParser) ''ab'' = Some ?sa"
    using orElse_choice_spec [of ?a "''ab''" ?sa "many nullParser" ?a "[]" ?a] e1 by blast
  have c2: "orElse ?a ?b ''bc'' = ?b ''bc''"
    using orElse_choice_spec [of ?a "''bc''" ?fb ?b ?a "[]" ?a] e2 by blast
  have c3: "orElse ?a ?b ''c'' = ?b ''c''"
    using orElse_choice_spec [of ?a "''c''" ?fc ?b ?a "[]" ?a] e2 by blast
  have c4: "choice [?a, ?b, ?c] = Some ?q"
    and c5: "?q ''ba'' = ?a ''ba'' \<bind> (\<lambda>r. first_success r [?b, ?c] ''ba'')"
    using orElse_choice_spec [of ?a "''ba''" ?sa ?b ?a "[?b, ?c]" ?q] by blast+
  from c1 c2 c3 c4 c5 e1 e2 e3 show ?thesis by simp
qed

section \<open>Labelling\<close>

text \<open>
  C5. For every parser \<open>p\<close>, name \<open>n\<close> and input \<open>s\<close>: \<open>mapTo p n\<close> returns a failure of
  \<open>p\<close> unchanged; on a success of \<open>p\<close> without results it returns the same result with the
  single leaf \<open>n: matched\<close> when the matched text is not empty, and the same result without
  any node when it is empty; on a success of \<open>p\<close> with results it returns a success with
  the same matched text and rest whose only node is \<open>n\<close> with the results of \<open>p\<close> as
  children. \<open>mapTo (parseChar a) x\<close> on the input \<open>a\<close> yields exactly the leaf \<open>x: a\<close>.
\<close>

theorem mapTo_spec:
  "(p s = Some r \<and> isFailure r \<longrightarrow> mapTo p n s = Some r)
   \<and> (p s = Some r \<and> isSuccess r \<and> results r = [] \<and> matched r \<noteq> [] \<longrightarrow>
        mapTo p n s = Some (r\<lparr>results := [ResultItem n (Inl (matched r))]\<rparr>))
   \<and> (p s = Some r \<and> isSuccess r \<and> results r = [] \<and> matched r = [] \<longrightarrow>
        mapTo p n s = Some r)
   \<and> (p s = Some r \<and> isSuccess r \<and> results r \<noteq> [] \<longrightarrow>
        mapTo p n s =
          Some \<lparr>status = Success, matched = matched r, rest = rest r, error = [],
                results = [ResultItem n (Inr (results r))]\<rparr>)
   \<and> mapTo (parseChar CHR ''a'') ''x'' ''a'' =
        Some \<lparr>status = Success, matched = ''a'', rest = [], error = [],
              results = [ResultItem ''x'' (Inl ''a'')]\<rparr>"
  by (auto simp add: mapTo_def isSuccess_iff add_string_def add_items_def success_def
      parseChar_def isFailure_def)

theorem mapTo_spec_witness:
  "mapTo (parseChar CHR ''a'') ''x'' ''b'' = parseChar CHR ''a'' ''b''
   \<and> isFailure (the (parseChar CHR ''a'' ''b''))
   \<and> mapTo (parseChar CHR ''a'') ''x'' ''ab'' =
       Some \<lparr>status = Success, matched = ''a'', rest = ''b'', error = [],
             results = [ResultItem ''x'' (Inl ''a'')]\<rparr>
   \<and> mapTo nullParser ''x'' ''ab'' =
       Some \<lparr>status = Success, matched = [], rest = ''ab'', error = [], results = []\<rparr>
   \<and> mapTo (mapTo (parseChar CHR ''a'') ''x'') ''y'' ''ab'' =
       Some \<lparr>status = Success, matched = ''a'', rest = ''b'', error = [],
             results = [ResultItem ''y'' (Inr [ResultItem ''x'' (Inl ''a'')])]\<rparr>"
proof -
  let ?a = "parseChar CHR ''a''"
  let ?x = "mapTo ?a ''x''"
  let ?f = "failure (''Expected '' @ [CHR 0x27, CHR ''a'', CHR 0x27] @ '' but got ''
                       @ [CHR 0x27, CHR ''b'', CHR 0x27])"
  let ?sa = "\<lparr>status = Success, matched = ''a'', rest = ''b'', error = [], results = []\<rparr>"
  let ?sn = "\<lparr>status = Success, matched = [], rest = ''ab'', error = [], results = []\<rparr>"
  let ?sx = "\<lparr>status = Success, matched = ''a'', rest = ''b'', error = [],
              results = [ResultItem ''x'' (Inl ''a'')]\<rparr>"
  have e1: "?a ''b'' = Some ?f" "isFailure ?f"
    by (simp_all add: parseChar_def Let_def failure_def isFailure_def)
  have e2: "?a ''ab'' = Some ?sa" "isSuccess ?sa" "results ?sa = []" "matched ?sa \<noteq> []"
    by (simp_all add: parseChar_def Let_def success_def isSuccess_def)
  have e3: "nullParser ''ab'' = Some ?sn" "isSuccess ?sn" "results ?sn = []" "matched ?sn = []"
    by (simp_all add: nullParser_def success_def isSuccess_def)
  have c1: "mapTo ?a ''x'' ''b'' = Some ?f"
    using mapTo_spec [of ?a "''b''" ?f "''x''"] e1 by blast
  have c2: "?x ''ab'' = Some (?sa\<lparr>results := [ResultItem ''x'' (Inl (matched ?sa))]\<rparr>)"
    using mapTo_spec [of ?a "''ab''" ?sa "''x''"] e2 by blast
  have c3: "mapTo nullParser ''x'' ''ab'' = Some ?sn"
    using mapTo_spec [of nullParser "''ab''" ?sn "''x''"] e3 by blast
  from c2 have e4: "?x ''ab'' = Some ?sx" "isSuccess ?sx" "results ?sx \<noteq> []"
    by (simp_all add: isSuccess_def)
  have c4: "mapTo ?x ''y'' ''ab'' =
      Some \<lparr>status = Success, matched = matched ?sx, rest = rest ?sx, error = [],
            results = [ResultItem ''y'' (Inr (results ?sx))]\<rparr>"
    using mapTo_spec [of ?x "''ab''" ?sx "''y''"] e4 by blast
  from c1 c2 c3 c4 e1 show ?thesis by simp
qed

section \<open>Repetition\<close>

text \<open>
  C3, as amended. For every parser \<open>p\<close> and every input \<open>s\<close>: \<open>many p\<close> never returns a
  failure, and it returns only when the iterated application of \<open>p\<close> from \<open>s\<close> reaches an
  application that fails. When it does, after the successful iterations \<open>rs\<close> (none, one or
  more), \<open>many p\<close> returns a success whose matched text is the concatenation of the matched
  texts of \<open>rs\<close>, whose rest is the input that remained at the first failure, and whose
  results hold, in the order of the iterations, one node labelled \<open>item\<close> with the results
  of each iteration whose results are not empty. In particular, when \<open>p\<close> fails at once,
  \<open>many p\<close> returns a success with the empty matched text and the whole input as rest.
\<close>

theorem many_spec:
  "(many p s = Some y \<longrightarrow>
      isSuccess y \<and> (\<exists>rs f. iterations p s rs \<and> p (reached s rs) = Some f \<and> isFailure f))
   \<and> (iterations p s rs \<and> p (reached s rs) = Some f \<and> isFailure f \<longrightarrow>
        many p s =
          Some \<lparr>status = Success, matched = concat (map matched rs), rest = reached s rs,
                error = [], results = item_nodes rs\<rparr>)
   \<and> (p s = Some f \<and> isFailure f \<longrightarrow>
        many p s = Some \<lparr>status = Success, matched = [], rest = s, error = [], results = []\<rparr>)"
proof -
  have a: "iterations p s rs \<and> p (reached s rs) = Some f \<and> isFailure f \<longrightarrow>
        many p s =
          Some \<lparr>status = Success, matched = concat (map matched rs), rest = reached s rs,
                error = [], results = item_nodes rs\<rparr>" for rs f
    using many_loop_iterations [of p s rs f "[]" "[]"] by (simp add: many_def)
  have b: "many p s = Some y \<longrightarrow>
      isSuccess y \<and> (\<exists>rs f. iterations p s rs \<and> p (reached s rs) = Some f \<and> isFailure f)"
  proof
    assume y: "many p s = Some y"
    then obtain rs f where *: "iterations p s rs \<and> p (reached s rs) = Some f \<and> isFailure f"
      using many_loop_returns [of p "[]" s "[]" y] by (auto simp add: many_def)
    with a [of rs f] y have "isSuccess y" by (auto simp add: isSuccess_def)
    with * show "isSuccess y \<and> (\<exists>rs f. iterations p s rs \<and> p (reached s rs) = Some f \<and> isFailure f)"
      by blast
  qed
  have c: "p s = Some f \<and> isFailure f \<longrightarrow>
        many p s = Some \<lparr>status = Success, matched = [], rest = s, error = [], results = []\<rparr>"
    using a [of "[]" f] by simp
  from a b c show ?thesis by blast
qed

theorem many_spec_witness:
  "many (mapTo (parseChar CHR ''a'') ''x'') ''aab'' =
     Some \<lparr>status = Success, matched = ''aa'', rest = ''b'', error = [],
           results = [ResultItem ''item'' (Inr [ResultItem ''x'' (Inl ''a'')]),
                      ResultItem ''item'' (Inr [ResultItem ''x'' (Inl ''a'')])]\<rparr>
   \<and> many (parseChar CHR ''a'') ''aab'' =
     Some \<lparr>status = Success, matched = ''aa'', rest = ''b'', error = [], results = []\<rparr>
   \<and> isFailure (the (parseChar CHR ''a'' ''b''))
   \<and> many (parseChar CHR ''a'') ''b'' =
     Some \<lparr>status = Success, matched = [], rest = ''b'', error = [], results = []\<rparr>
   \<and> isSuccess \<lparr>status = Success, matched = [], rest = ''b'', error = [], results = []\<rparr>"
proof -
  let ?a = "parseChar CHR ''a''"
  let ?x = "mapTo ?a ''x''"
  let ?f = "failure (''Expected '' @ [CHR 0x27, CHR ''a'', CHR 0x27] @ '' but got ''
                       @ [CHR 0x27, CHR ''b'', CHR 0x27])"
  let ?x1 = "\<lparr>status = Success, matched = ''a'', rest = ''ab'', error = [],
              results = [ResultItem ''x'' (Inl ''a'')]\<rparr>"
  let ?x2 = "\<lparr>status = Success, matched = ''a'', rest = ''b'', error = [],
              results = [ResultItem ''x'' (Inl ''a'')]\<rparr>"
  let ?a1 = "\<lparr>status = Success, matched = ''a'', rest = ''ab'', error = [], results = []\<rparr>"
  let ?a2 = "\<lparr>status = Success, matched = ''a'', rest = ''b'', error = [], results = []\<rparr>"
  let ?y = "\<lparr>status = Success, matched = [], rest = ''b'', error = [], results = []\<rparr>"
  have f: "?a ''b'' = Some ?f" "isFailure ?f"
    by (simp_all add: parseChar_def Let_def failure_def isFailure_def)
  have e1: "iterations ?x ''aab'' [?x1, ?x2] \<and> ?x (reached ''aab'' [?x1, ?x2]) = Some ?f
      \<and> isFailure ?f"
    by (simp add: mapTo_def parseChar_def Let_def success_def failure_def add_string_def
        isSuccess_def isFailure_def)
  have e2: "iterations ?a ''aab'' [?a1, ?a2] \<and> ?a (reached ''aab'' [?a1, ?a2]) = Some ?f
      \<and> isFailure ?f"
    by (simp add: parseChar_def Let_def success_def failure_def isSuccess_def isFailure_def)
  have c1: "many ?x ''aab'' =
      Some \<lparr>status = Success, matched = concat (map matched [?x1, ?x2]),
            rest = reached ''aab'' [?x1, ?x2], error = [], results = item_nodes [?x1, ?x2]\<rparr>"
    using many_spec [of ?x "''aab''" ?y "[?x1, ?x2]" ?f] e1 by blast
  have c2: "many ?a ''aab'' =
      Some \<lparr>status = Success, matched = concat (map matched [?a1, ?a2]),
            rest = reached ''aab'' [?a1, ?a2], error = [], results = item_nodes [?a1, ?a2]\<rparr>"
    using many_spec [of ?a "''aab''" ?y "[?a1, ?a2]" ?f] e2 by blast
  have c3: "many ?a ''b'' = Some ?y"
    using many_spec [of ?a "''b''" ?y "[]" ?f] f by blast
  have c4: "isSuccess ?y"
    using many_spec [of ?a "''b''" ?y "[]" ?f] c3 by blast
  from c1 c2 c3 c4 f show ?thesis by simp
qed

text \<open>
  C3 as stated (for every parser and every input \<open>many p\<close> returns a success) fails:
  \<open>nullParser\<close> succeeds on every input and consumes nothing, so the loop of
  \<open>many nullParser\<close> never ends and the call does not return.
\<close>

theorem many_never_returns_example: "many nullParser ''a'' = None"
  using many_loop_stuck [of nullParser "''a''" "[]" "success [] ''a''" "[]" "[]"]
  by (simp add: many_def nullParser_def success_def isSuccess_def)

text \<open>
  C4, as amended. For every parser \<open>p\<close> and every input \<open>s\<close>: when the first application
  of \<open>p\<close> fails, \<open>many1 p\<close> returns that failure unchanged. \<open>many1 p\<close> returns exactly
  when the iterated application of \<open>p\<close> from \<open>s\<close> reaches an application that fails, after
  the successful iterations \<open>rs\<close>: if these matched no text at all, it returns the result
  of the failing application unchanged; otherwise it returns a success whose matched text
  is the concatenation of the matched texts of \<open>rs\<close> (one or more), whose rest is the
  input that remained at the failure and whose results are empty. For a parser whose
  successes split their input into matched text and rest, whenever \<open>many1 p\<close> returns: it
  returns a failure if and only if the first application of \<open>p\<close> fails, that failure is
  the one of \<open>p\<close>, and a success has empty results and the matched text of one or more
  successful applications.
\<close>

theorem many1_spec:
  "(p s = Some f \<and> isFailure f \<longrightarrow> many1 p s = Some f)
   \<and> (iterations p s rs \<and> p (reached s rs) = Some f \<and> isFailure f \<longrightarrow>
        many1 p s =
          Some (if concat (map matched rs) = [] then f
                else \<lparr>status = Success, matched = concat (map matched rs),
                      rest = reached s rs, error = [], results = []\<rparr>))
   \<and> (many1 p s = Some y \<longrightarrow>
        (\<exists>rs e. iterations p s rs \<and> p (reached s rs) = Some e \<and> isFailure e
           \<and> y = (if concat (map matched rs) = [] then e
                   else \<lparr>status = Success, matched = concat (map matched rs),
                         rest = reached s rs, error = [], results = []\<rparr>)))
   \<and> (splits_input p \<and> many1 p s = Some y \<longrightarrow>
        (isFailure y \<longleftrightarrow> (\<exists>e. p s = Some e \<and> isFailure e))
        \<and> (isFailure y \<longrightarrow> p s = Some y)
        \<and> (isSuccess y \<longrightarrow>
             results y = []
             \<and> (\<exists>rs e. rs \<noteq> [] \<and> iterations p s rs \<and> p (reached s rs) = Some e \<and> isFailure e
                   \<and> matched y = concat (map matched rs) \<and> rest y = reached s rs)))"
proof -
  have a: "iterations p s rs \<and> p (reached s rs) = Some f \<and> isFailure f \<longrightarrow>
      many1 p s = Some (if concat (map matched rs) = [] then f
           else \<lparr>status = Success, matched = concat (map matched rs), rest = reached s rs,
                 error = [], results = []\<rparr>)" for rs f
    using many1_loop_iterations [of p s rs f "[]"] by (simp add: many1_def)
  have b: "p s = Some f \<and> isFailure f \<longrightarrow> many1 p s = Some f"
    using a [of "[]" f] by simp
  have c: "many1 p s = Some y \<longrightarrow>
        (\<exists>rs e. iterations p s rs \<and> p (reached s rs) = Some e \<and> isFailure e
           \<and> y = (if concat (map matched rs) = [] then e
                   else \<lparr>status = Success, matched = concat (map matched rs),
                         rest = reached s rs, error = [], results = []\<rparr>))"
  proof
    assume h: "many1 p s = Some y"
    then obtain rs e where it: "iterations p s rs" "p (reached s rs) = Some e" "isFailure e"
      using many1_loop_returns [of p "[]" s y] by (auto simp add: many1_def)
    with a [of rs e] h have "y = (if concat (map matched rs) = [] then e
        else \<lparr>status = Success, matched = concat (map matched rs),
              rest = reached s rs, error = [], results = []\<rparr>)"
      by (simp del: concat_eq_Nil_conv)
    with it show "\<exists>rs e. iterations p s rs \<and> p (reached s rs) = Some e \<and> isFailure e
           \<and> y = (if concat (map matched rs) = [] then e
                   else \<lparr>status = Success, matched = concat (map matched rs),
                         rest = reached s rs, error = [], results = []\<rparr>)"
      by blast
  qed
  have d: "splits_input p \<and> many1 p s = Some y \<longrightarrow>
        (isFailure y \<longleftrightarrow> (\<exists>e. p s = Some e \<and> isFailure e))
        \<and> (isFailure y \<longrightarrow> p s = Some y)
        \<and> (isSuccess y \<longrightarrow>
             results y = []
             \<and> (\<exists>rs e. rs \<noteq> [] \<and> iterations p s rs \<and> p (reached s rs) = Some e \<and> isFailure e
                   \<and> matched y = concat (map matched rs) \<and> rest y = reached s rs))"
  proof
    assume h: "splits_input p \<and> many1 p s = Some y"
    then obtain rs e where it: "iterations p s rs" "p (reached s rs) = Some e" "isFailure e"
      using many1_loop_returns [of p "[]" s y] by (auto simp add: many1_def)
    show "(isFailure y \<longleftrightarrow> (\<exists>e. p s = Some e \<and> isFailure e))
        \<and> (isFailure y \<longrightarrow> p s = Some y)
        \<and> (isSuccess y \<longrightarrow>
             results y = []
             \<and> (\<exists>rs e. rs \<noteq> [] \<and> iterations p s rs \<and> p (reached s rs) = Some e \<and> isFailure e
                   \<and> matched y = concat (map matched rs) \<and> rest y = reached s rs))"
    proof (cases rs)
      case Nil
      with it a [of "[]" e] h have "y = e" "p s = Some e" by simp_all
      with it show ?thesis by (auto simp add: isSuccess_iff)
    next
      case (Cons r1 rs')
      with it have r1: "p s = Some r1" "isSuccess r1" by simp_all
      have ne: "concat (map matched rs) \<noteq> []"
      proof
        assume "concat (map matched rs) = []"
        with Cons have "matched r1 = []" by simp
        with h r1 have "rest r1 = s" by (auto simp add: splits_input_def)
        with r1 many1_loop_stuck [of p s "[]" r1 "[]"] have "many1 p s = None"
          by (simp add: many1_def)
        with h show False by simp
      qed
      with a [of rs e] it h have y: "y = \<lparr>status = Success, matched = concat (map matched rs),
          rest = reached s rs, error = [], results = []\<rparr>"
        by (simp del: concat_eq_Nil_conv)
      then have "\<not> isFailure y" by (simp add: isFailure_def)
      moreover from r1 have "\<not> (\<exists>e. p s = Some e \<and> isFailure e)" by (simp add: isSuccess_iff)
      moreover from y Cons it have "results y = []
             \<and> (\<exists>rs e. rs \<noteq> [] \<and> iterations p s rs \<and> p (reached s rs) = Some e \<and> isFailure e
                   \<and> matched y = concat (map matched rs) \<and> rest y = reached s rs)"
        by (intro conjI exI [of _ rs] exI [of _ e]) simp_all
      ultimately show ?thesis by blast
    qed
  qed
  from a [of rs f] b c d show ?thesis by blast
qed

theorem many1_spec_witness:
  "isFailure (the (parseChar CHR ''a'' ''b''))
   \<and> many1 (parseChar CHR ''a'') ''b'' = parseChar CHR ''a'' ''b''
   \<and> many1 (mapTo (parseChar CHR ''a'') ''x'') ''aab'' =
       Some \<lparr>status = Success, matched = ''aa'', rest = ''b'', error = [], results = []\<rparr>
   \<and> splits_input (parseChar CHR ''a'')
   \<and> many1 (parseChar CHR ''a'') ''aab'' =
       Some \<lparr>status = Success, matched = ''aa'', rest = ''b'', error = [], results = []\<rparr>
   \<and> \<not> (\<exists>e. parseChar CHR ''a'' ''aab'' = Some e \<and> isFailure e)
   \<and> (\<exists>rs e. iterations (parseChar CHR ''a'') ''aab'' rs
         \<and> parseChar CHR ''a'' (reached ''aab'' rs) = Some e \<and> isFailure e)
   \<and> many1 emptyMatchParser ''x'' = emptyMatchParser ''y''
   \<and> isFailure (the (emptyMatchParser ''y''))"
proof -
  let ?a = "parseChar CHR ''a''"
  let ?x = "mapTo ?a ''x''"
  let ?f = "failure (''Expected '' @ [CHR 0x27, CHR ''a'', CHR 0x27] @ '' but got ''
                       @ [CHR 0x27, CHR ''b'', CHR 0x27])"
  let ?x1 = "\<lparr>status = Success, matched = ''a'', rest = ''ab'', error = [],
              results = [ResultItem ''x'' (Inl ''a'')]\<rparr>"
  let ?x2 = "\<lparr>status = Success, matched = ''a'', rest = ''b'', error = [],
              results = [ResultItem ''x'' (Inl ''a'')]\<rparr>"
  let ?a1 = "\<lparr>status = Success, matched = ''a'', rest = ''ab'', error = [], results = []\<rparr>"
  let ?a2 = "\<lparr>status = Success, matched = ''a'', rest = ''b'', error = [], results = []\<rparr>"
  let ?y = "\<lparr>status = Success, matched = ''aa'', rest = ''b'', error = [], results = []\<rparr>"
  let ?j = "\<lparr>status = Success, matched = [], rest = ''y'', error = [], results = []\<rparr>"
  let ?n = "failure ''no''"
  have f: "?a ''b'' = Some ?f \<and> isFailure ?f"
    by (simp add: parseChar_def Let_def failure_def isFailure_def)
  have e1: "iterations ?x ''aab'' [?x1, ?x2] \<and> ?x (reached ''aab'' [?x1, ?x2]) = Some ?f
      \<and> isFailure ?f"
    by (simp add: mapTo_def parseChar_def Let_def success_def failure_def add_string_def
        isSuccess_def isFailure_def)
  have e2: "iterations ?a ''aab'' [?a1, ?a2] \<and> ?a (reached ''aab'' [?a1, ?a2]) = Some ?f
      \<and> isFailure ?f"
    by (simp add: parseChar_def Let_def success_def failure_def isSuccess_def isFailure_def)
  have e3: "iterations emptyMatchParser ''x'' [?j]
      \<and> emptyMatchParser (reached ''x'' [?j]) = Some ?n \<and> isFailure ?n"
    by (simp add: emptyMatchParser_def success_def failure_def isSuccess_def isFailure_def)
  have sp: "splits_input ?a"
    by (rule splits_parseChar)
  have c1: "many1 ?a ''b'' = Some ?f"
    using many1_spec [of ?a "''b''" ?f "[]" ?y] f by blast
  have "many1 ?x ''aab'' =
      Some (if concat (map matched [?x1, ?x2]) = [] then ?f
            else \<lparr>status = Success, matched = concat (map matched [?x1, ?x2]),
                  rest = reached ''aab'' [?x1, ?x2], error = [], results = []\<rparr>)"
    using many1_spec [of ?x "''aab''" ?f "[?x1, ?x2]" ?y] e1 by blast
  then have c2: "many1 ?x ''aab'' = Some ?y"
    by simp
  have "many1 ?a ''aab'' =
      Some (if concat (map matched [?a1, ?a2]) = [] then ?f
            else \<lparr>status = Success, matched = concat (map matched [?a1, ?a2]),
                  rest = reached ''aab'' [?a1, ?a2], error = [], results = []\<rparr>)"
    using many1_spec [of ?a "''aab''" ?f "[?a1, ?a2]" ?y] e2 by blast
  then have c3: "many1 ?a ''aab'' = Some ?y"
    by simp
  have "\<not> isFailure ?y"
    by (simp add: isFailure_def)
  with sp c3 have c4: "\<not> (\<exists>e. ?a ''aab'' = Some e \<and> isFailure e)"
    using many1_spec [of ?a "''aab''" ?f "[?a1, ?a2]" ?y] by blast
  have c5: "\<exists>rs e. iterations ?a ''aab'' rs \<and> ?a (reached ''aab'' rs) = Some e \<and> isFailure e"
    using many1_spec [of ?a "''aab''" ?f "[?a1, ?a2]" ?y] c3 by blast
  have "many1 emptyMatchParser ''x'' =
      Some (if concat (map matched [?j]) = [] then ?n
            else \<lparr>status = Success, matched = concat (map matched [?j]),
                  rest = reached ''x'' [?j], error = [], results = []\<rparr>)"
    using many1_spec [of emptyMatchParser "''x''" ?n "[?j]" ?y] e3 by blast
  then have c6: "many1 emptyMatchParser ''x'' = Some ?n"
    by simp
  have e6: "emptyMatchParser ''y'' = Some ?n" "isFailure ?n"
    by (simp_all add: emptyMatchParser_def failure_def isFailure_def)
  from f c1 c2 c3 sp c4 c5 c6 e6 show ?thesis by simp
qed

text \<open>
  C4 as stated fails in two ways. The first application of \<open>nullParser\<close> succeeds, and
  \<open>many1 nullParser\<close> does not return, so it does not succeed. The first application of
  \<open>emptyMatchParser\<close> to \<open>x\<close> succeeds, and \<open>many1 emptyMatchParser\<close> returns a failure:
  the loop tells that no application succeeded from the matched text being empty.
\<close>

theorem many1_first_success_examples:
  "nullParser ''a'' = Some (success [] ''a'') \<and> isSuccess (success [] ''a'')
   \<and> many1 nullParser ''a'' = None
   \<and> emptyMatchParser ''x'' = Some (success [] ''y'') \<and> isSuccess (success [] ''y'')
   \<and> many1 emptyMatchParser ''x'' = Some (failure ''no'') \<and> isFailure (failure ''no'')"
proof -
  have a: "many1 nullParser ''a'' = None"
    using many1_loop_stuck [of nullParser "''a''" "[]" "success [] ''a''" "[]"]
    by (simp add: many1_def nullParser_def success_def isSuccess_def)
  have "iterations emptyMatchParser ''x'' [success [] ''y'']"
    "emptyMatchParser (reached ''x'' [success [] ''y'']) = Some (failure ''no'')"
    "isFailure (failure ''no'')"
    by (simp_all add: emptyMatchParser_def success_def failure_def isSuccess_def isFailure_def)
  from many1_loop_iterations [OF this, of "[]"]
  have b: "many1 emptyMatchParser ''x'' = Some (failure ''no'')"
    by (simp add: many1_def success_def)
  from a b show ?thesis
    by (simp add: nullParser_def emptyMatchParser_def success_def failure_def isSuccess_def
        isFailure_def)
qed



section \<open>Matched text and rest split the input\<close>

lemma splits_nullParser: "splits_input nullParser"
  by (auto simp add: splits_input_def nullParser_def success_def)

lemma splits_andThen:
  assumes "splits_input pa" "splits_input pb"
  shows "splits_input (andThen pa pb)"
  unfolding splits_input_def
proof (intro allI impI)
  fix s r
  assume r: "andThen pa pb s = Some r" and ok: "isSuccess r"
  from r obtain ra where ra: "pa s = Some ra"
    by (cases "pa s") (simp_all add: andThen_apply)
  show "matched r @ rest r = s"
  proof (cases "isFailure ra")
    case True
    with r ra ok show ?thesis by (simp add: andThen_apply isSuccess_iff)
  next
    case False
    with r ra obtain rb where rb: "pb (rest ra) = Some rb"
      by (cases "pb (rest ra)") (simp_all add: andThen_apply)
    with r ra False ok have nf: "\<not> isFailure rb"
      and r': "r = \<lparr>status = Success, matched = matched ra @ matched rb, rest = rest rb,
                    error = [], results = results ra @ results rb\<rparr>"
      by (auto simp add: andThen_apply isSuccess_iff split: if_splits)
    from assms ra rb False nf have "matched ra @ rest ra = s" "matched rb @ rest rb = rest ra"
      by (auto simp add: splits_input_def isSuccess_iff)
    with r' show ?thesis by simp
  qed
qed

lemma splits_orElse:
  assumes "splits_input pa" "splits_input pb"
  shows "splits_input (orElse pa pb)"
  unfolding splits_input_def
proof (intro allI impI)
  fix s r
  assume r: "orElse pa pb s = Some r" and ok: "isSuccess r"
  from r obtain ra where ra: "pa s = Some ra"
    by (cases "pa s") (simp_all add: orElse_apply)
  show "matched r @ rest r = s"
  proof (cases "isSuccess ra")
    case True
    with r ra assms(1) show ?thesis by (auto simp add: orElse_apply splits_input_def)
  next
    case False
    with r ra have "pb s = Some r" by (simp add: orElse_apply)
    with assms(2) ok show ?thesis by (auto simp add: splits_input_def)
  qed
qed

lemma splits_foldl:
  assumes step: "\<And>pa pb. splits_input pa \<Longrightarrow> splits_input pb \<Longrightarrow> splits_input (f pa pb)"
  shows "splits_input p \<Longrightarrow> \<forall>q \<in> set ps. splits_input q \<Longrightarrow> splits_input (foldl f p ps)"
  by (induction ps arbitrary: p) (simp_all add: step)

lemma splits_reduce:
  assumes step: "\<And>pa pb. splits_input pa \<Longrightarrow> splits_input pb \<Longrightarrow> splits_input (f pa pb)"
    and "\<forall>q \<in> set ps. splits_input q" and "reduce ps f = Some p"
  shows "splits_input p"
proof (cases ps)
  case Nil
  with assms(3) show ?thesis by (simp add: reduce_Nil)
next
  case (Cons q qs)
  with assms(2,3) splits_foldl [of f q qs, OF step] show ?thesis
    by (auto simp add: reduce_Cons)
qed

lemma splits_mapTo:
  assumes "splits_input q"
  shows "splits_input (mapTo q n)"
  unfolding splits_input_def
proof (intro allI impI)
  fix s r
  assume r: "mapTo q n s = Some r" and ok: "isSuccess r"
  from r obtain rq where rq: "q s = Some rq"
    by (cases "q s") (simp_all add: mapTo_def)
  with r ok have "isSuccess rq" "matched r = matched rq" "rest r = rest rq"
    by (auto simp add: mapTo_def add_string_def add_items_def success_def split: if_splits)
  with assms rq show "matched r @ rest r = s"
    by (auto simp add: splits_input_def)
qed

lemma splits_refParser: "splits_input q \<Longrightarrow> splits_input (refParser q)"
  by (simp add: splits_input_def refParser_def)

lemma iterations_split:
  "splits_input p \<Longrightarrow> iterations p s rs \<Longrightarrow> concat (map matched rs) @ reached s rs = s"
proof (induction rs arbitrary: s)
  case Nil
  then show ?case by simp
next
  case (Cons r rs)
  then have "matched r @ rest r = s" "concat (map matched rs) @ reached (rest r) rs = rest r"
    by (auto simp add: splits_input_def)
  then show ?case by simp
qed

lemma splits_many:
  assumes "splits_input q"
  shows "splits_input (many q)"
  unfolding splits_input_def
proof (intro allI impI)
  fix s r
  assume r: "many q s = Some r"
  then obtain rs f where it: "iterations q s rs" "q (reached s rs) = Some f" "isFailure f"
    using many_loop_returns [of q "[]" s "[]" r] by (auto simp add: many_def)
  with r many_loop_iterations [of q s rs f "[]" "[]"]
  have "matched r = concat (map matched rs)" "rest r = reached s rs"
    by (auto simp add: many_def)
  with iterations_split [OF assms it(1)] show "matched r @ rest r = s" by simp
qed

lemma splits_many1:
  assumes "splits_input q"
  shows "splits_input (many1 q)"
  unfolding splits_input_def
proof (intro allI impI)
  fix s r
  assume r: "many1 q s = Some r" and ok: "isSuccess r"
  then obtain rs f where it: "iterations q s rs" "q (reached s rs) = Some f" "isFailure f"
    using many1_loop_returns [of q "[]" s r] by (auto simp add: many1_def)
  with r ok many1_loop_iterations [of q s rs f "[]"]
  have "matched r = concat (map matched rs)" "rest r = reached s rs"
    by (auto simp add: many1_def isSuccess_iff simp del: concat_eq_Nil_conv split: if_splits)
  with iterations_split [OF assms it(1)] show "matched r @ rest r = s" by simp
qed

lemma listOf_eq:
  "listOf w q c =
     Some (andThen (mapTo (orElse (andThen w q) nullParser) ''item'')
             (many (andThen (andThen (andThen w (parseChar c)) w) q)))"
  by (simp add: listOf_def sequence_def reduce_Cons opt_eq)

lemma returns_more_ord: "fun_ord (flat_ord None) p q \<longleftrightarrow> returns_more p q"
proof
  assume "fun_ord (flat_ord None) p q"
  then have *: "p s = None \<or> p s = q s" for s
    by (simp add: fun_ord_def flat_ord_def)
  show "returns_more p q"
    unfolding returns_more_def
  proof (intro allI impI)
    fix s r
    assume "p s = Some r"
    with * [of s] show "q s = Some r" by simp
  qed
next
  assume h: "returns_more p q"
  have "p s = None \<or> p s = q s" for s
    using h by (cases "p s") (simp_all add: returns_more_def)
  then show "fun_ord (flat_ord None) p q"
    by (simp add: fun_ord_def flat_ord_def)
qed

lemma returns_moreD: "returns_more p q \<Longrightarrow> p s = Some r \<Longrightarrow> q s = Some r"
  unfolding returns_more_def by blast

lemma more_andThen:
  assumes "returns_more pa pa'" "returns_more pb pb'"
  shows "returns_more (andThen pa pb) (andThen pa' pb')"
  unfolding returns_more_def
proof (intro allI impI)
  fix s r
  assume r: "andThen pa pb s = Some r"
  then obtain ra where ra: "pa s = Some ra"
    by (cases "pa s") (simp_all add: andThen_apply)
  with assms(1) have ra': "pa' s = Some ra" by (rule returns_moreD)
  show "andThen pa' pb' s = Some r"
  proof (cases "isFailure ra")
    case True
    with r ra ra' show ?thesis by (simp add: andThen_apply)
  next
    case False
    with r ra obtain rb where rb: "pb (rest ra) = Some rb"
      by (cases "pb (rest ra)") (simp_all add: andThen_apply)
    with assms(2) have "pb' (rest ra) = Some rb" by (rule returns_moreD)
    with r ra ra' rb False show ?thesis by (simp add: andThen_apply)
  qed
qed

lemma more_orElse:
  assumes "returns_more pa pa'" "returns_more pb pb'"
  shows "returns_more (orElse pa pb) (orElse pa' pb')"
  unfolding returns_more_def
proof (intro allI impI)
  fix s r
  assume r: "orElse pa pb s = Some r"
  then obtain ra where ra: "pa s = Some ra"
    by (cases "pa s") (simp_all add: orElse_apply)
  with assms(1) have ra': "pa' s = Some ra" by (rule returns_moreD)
  show "orElse pa' pb' s = Some r"
  proof (cases "isSuccess ra")
    case True
    with r ra ra' show ?thesis by (simp add: orElse_apply)
  next
    case False
    with r ra have "pb s = Some r" by (simp add: orElse_apply)
    with assms(2) have "pb' s = Some r" by (rule returns_moreD)
    with ra' False show ?thesis by (simp add: orElse_apply)
  qed
qed

lemma more_mapTo:
  assumes "returns_more q q'"
  shows "returns_more (mapTo q n) (mapTo q' n)"
  unfolding returns_more_def
proof (intro allI impI)
  fix s r
  assume r: "mapTo q n s = Some r"
  then obtain rq where rq: "q s = Some rq"
    by (cases "q s") (simp_all add: mapTo_def)
  with assms have "q' s = Some rq" by (rule returns_moreD)
  with r rq show "mapTo q' n s = Some r" by (simp add: mapTo_def)
qed

lemma more_refParser: "returns_more q q' \<Longrightarrow> returns_more (refParser q) (refParser q')"
  by (simp add: returns_more_def refParser_def)

lemma more_iterations: "returns_more q q' \<Longrightarrow> iterations q s rs \<Longrightarrow> iterations q' s rs"
  by (induction rs arbitrary: s) (auto dest: returns_moreD)

lemma more_many:
  assumes "returns_more q q'"
  shows "returns_more (many q) (many q')"
  unfolding returns_more_def
proof (intro allI impI)
  fix s r
  assume r: "many q s = Some r"
  then obtain rs f where it: "iterations q s rs" "q (reached s rs) = Some f" "isFailure f"
    using many_loop_returns [of q "[]" s "[]" r] by (auto simp add: many_def)
  from assms it have it': "iterations q' s rs" "q' (reached s rs) = Some f"
    by (auto dest: returns_moreD more_iterations)
  from many_loop_iterations [OF it, of "[]" "[]"] many_loop_iterations [OF it' it(3), of "[]" "[]"] r
  show "many q' s = Some r" by (simp add: many_def)
qed

lemma more_many1:
  assumes "returns_more q q'"
  shows "returns_more (many1 q) (many1 q')"
  unfolding returns_more_def
proof (intro allI impI)
  fix s r
  assume r: "many1 q s = Some r"
  then obtain rs f where it: "iterations q s rs" "q (reached s rs) = Some f" "isFailure f"
    using many1_loop_returns [of q "[]" s r] by (auto simp add: many1_def)
  from assms it have it': "iterations q' s rs" "q' (reached s rs) = Some f"
    by (auto dest: returns_moreD more_iterations)
  from many1_loop_iterations [OF it, of "[]"] many1_loop_iterations [OF it' it(3), of "[]"] r
  show "many1 q' s = Some r" by (simp add: many1_def)
qed

lemma more_foldl:
  assumes step: "\<And>pa pa' pb pb'. returns_more pa pa' \<Longrightarrow> returns_more pb pb' \<Longrightarrow>
      returns_more (f pa pb) (f pa' pb')"
  shows "returns_more p p' \<Longrightarrow> \<forall>A \<in> set As. returns_more (A R) (A R') \<Longrightarrow>
    returns_more (foldl f p (map (\<lambda>A. A R) As)) (foldl f p' (map (\<lambda>A. A R') As))"
  by (induction As arbitrary: p p') (simp_all add: step)

lemma more_reduce:
  assumes step: "\<And>pa pa' pb pb'. returns_more pa pa' \<Longrightarrow> returns_more pb pb' \<Longrightarrow>
      returns_more (f pa pb) (f pa' pb')"
    and "\<forall>A \<in> set As. returns_more (A R) (A R')"
    and "reduce (map (\<lambda>A. A R) As) f = Some p" "reduce (map (\<lambda>A. A R') As) f = Some p'"
  shows "returns_more p p'"
proof (cases As)
  case Nil
  with assms(3) show ?thesis by (simp add: reduce_Nil)
next
  case (Cons A As')
  with assms(2-4) more_foldl [of f "A R" "A R'" As' R R', OF step] show ?thesis
    by (auto simp add: reduce_Cons)
qed

lemma body_returns_more:
  "built_body F \<Longrightarrow> \<forall>j. returns_more (E j) (E' j) \<Longrightarrow> returns_more (F E) (F E')"
proof (induction F arbitrary: E E'
    rule: built_built_body.inducts(2) [where ?P1.0 = "\<lambda>p. True"])
  case (body_const p)
  show ?case by (simp add: returns_more_def)
next
  case (body_sequence As F)
  from body_sequence.IH body_sequence.prems have a: "\<forall>A \<in> set As. returns_more (A E) (A E')"
    by blast
  from body_sequence.hyps have b: "reduce (map (\<lambda>A. A E) As) andThen = Some (F E)"
    and c: "reduce (map (\<lambda>A. A E') As) andThen = Some (F E')"
    by (simp_all add: sequence_def)
  show ?case by (rule more_reduce [OF more_andThen a b c])
next
  case (body_choice As F)
  from body_choice.IH body_choice.prems have a: "\<forall>A \<in> set As. returns_more (A E) (A E')"
    by blast
  from body_choice.hyps have b: "reduce (map (\<lambda>A. A E) As) orElse = Some (F E)"
    and c: "reduce (map (\<lambda>A. A E') As) orElse = Some (F E')"
    by (simp_all add: choice_def)
  show ?case by (rule more_reduce [OF more_orElse a b c])
next
  case (body_opt A F)
  from body_opt.hyps have "F E = orElse (A E) nullParser" "F E' = orElse (A E') nullParser"
    by (simp_all add: opt_eq)
  moreover from body_opt.prems have "returns_more (A E) (A E')"
    by (rule body_opt.IH)
  moreover have "returns_more nullParser nullParser"
    by (simp add: returns_more_def)
  ultimately show ?case by (simp add: more_orElse)
next
  case (body_listOf W A c F)
  from body_listOf.hyps
  have "F E = andThen (mapTo (orElse (andThen (W E) (A E)) nullParser) ''item'')
             (many (andThen (andThen (andThen (W E) (parseChar c)) (W E)) (A E)))"
    "F E' = andThen (mapTo (orElse (andThen (W E') (A E')) nullParser) ''item'')
             (many (andThen (andThen (andThen (W E') (parseChar c)) (W E')) (A E')))"
    by (simp_all add: listOf_eq)
  moreover from body_listOf.prems have "returns_more (W E) (W E')" "returns_more (A E) (A E')"
    by (rule body_listOf.IH)+
  moreover have "returns_more nullParser nullParser"
    "returns_more (parseChar c) (parseChar c)"
    by (simp_all add: returns_more_def)
  ultimately show ?case
    by (simp add: more_andThen more_mapTo more_orElse more_many)
next
  case (body_refParser i)
  from body_refParser.prems have "returns_more (E i) (E' i)"
    by blast
  then show ?case by (rule more_refParser)
next
  case (body_andThen A B)
  from body_andThen.prems show ?case by (intro more_andThen body_andThen.IH)
next
  case (body_orElse A B)
  from body_orElse.prems show ?case by (intro more_orElse body_orElse.IH)
next
  case (body_many A)
  from body_many.prems show ?case by (intro more_many body_many.IH)
next
  case (body_many1 A)
  from body_many1.prems show ?case by (intro more_many1 body_many1.IH)
next
  case (body_mapTo A n)
  from body_mapTo.prems show ?case by (intro more_mapTo body_mapTo.IH)
qed simp_all

lemma rule_slots_mono:
  assumes "\<forall>j. built_body (\<lambda>E. bodies E j)"
  shows "monotone (fun_ord (flat_ord None)) (flat_ord None)
           (\<lambda>f. case_prod (bodies (curry f)) x)"
proof (rule monotoneI)
  fix f g :: "nat \<times> string \<Rightarrow> Result option"
  assume "fun_ord (flat_ord None) f g"
  then have fg: "f z = None \<or> f z = g z" for z
    unfolding fun_ord_def flat_ord_def by blast
  have "\<forall>j. returns_more (curry f j) (curry g j)"
    unfolding returns_more_def
  proof (intro allI impI)
    fix j s r
    assume "curry f j s = Some r"
    with fg [of "(j, s)"] show "curry g j s = Some r" by simp
  qed
  moreover obtain i s where x: "x = (i, s)"
    by (cases x)
  moreover from assms have "built_body (\<lambda>E. bodies E i)"
    by blast
  ultimately have "returns_more (bodies (curry f) i) (bodies (curry g) i)"
    by (intro body_returns_more [of "\<lambda>E. bodies E i"])
  then have "bodies (curry f) i s = None \<or> bodies (curry f) i s = bodies (curry g) i s"
    by (cases "bodies (curry f) i s") (simp_all add: returns_more_def)
  with x show "flat_ord None (case_prod (bodies (curry f)) x) (case_prod (bodies (curry g)) x)"
    by (simp add: flat_ord_def)
qed

lemma rule_slots_unfold:
  assumes "\<forall>j. built_body (\<lambda>E. bodies E j)"
  shows "rule_slots bodies = bodies (rule_slots bodies)"
proof (rule option.fixp_rule_uc [where U = case_prod and C = curry and F = bodies])
  show "mono_option (\<lambda>f. case_prod (bodies (curry f)) x)" for x
    using assms by (rule rule_slots_mono)
  show "rule_slots bodies \<equiv> curry (ccpo.fixp (fun_lub (flat_lub None)) (fun_ord option_ord)
      (\<lambda>f. case_prod (bodies (curry f))))"
    by (simp add: rule_slots_def)
  show "curry (case_prod f) = f" for f :: Slots
    by simp
qed

lemma rule_slots_splits:
  assumes body: "\<forall>j. built_body (\<lambda>E. bodies E j)"
    and step: "\<And>E j. \<forall>k. splits_input (E k) \<Longrightarrow> splits_input (bodies E j)"
  shows "splits_input (rule_slots bodies i)"
  unfolding splits_input_def
proof (intro allI impI)
  fix s r
  assume r: "rule_slots bodies i s = Some r" and ok: "isSuccess r"
  have "isSuccess r \<longrightarrow> matched r @ rest r = snd (i, s)"
  proof (rule fixp_induct_option
      [where U = case_prod and C = curry and F = bodies
        and P = "\<lambda>x r. isSuccess r \<longrightarrow> matched r @ rest r = snd x"
        and f = "rule_slots bodies" and x = "(i, s)" and y = r])
    show "mono_option (\<lambda>f. case_prod (bodies (curry f)) x)" for x
      using body by (rule rule_slots_mono)
    show "rule_slots bodies \<equiv> curry (ccpo.fixp (fun_lub (flat_lub None)) (fun_ord option_ord)
        (\<lambda>f. case_prod (bodies (curry f))))"
      by (simp add: rule_slots_def)
    show "case_prod (curry f) = f" for f :: "nat \<times> string \<Rightarrow> Result option"
      by simp
    show "case_prod (rule_slots bodies) (i, s) = Some r"
      using r by simp
  next
    fix E :: Slots and x :: "nat \<times> string" and y
    assume "\<And>x y. case_prod E x = Some y \<Longrightarrow> isSuccess y \<longrightarrow> matched y @ rest y = snd x"
    then have "E k t = Some y \<Longrightarrow> isSuccess y \<longrightarrow> matched y @ rest y = t" for k t y
      by force
    then have "\<forall>k. splits_input (E k)"
      by (simp add: splits_input_def)
    then have "splits_input (bodies E (fst x))" by (rule step)
    moreover assume "case_prod (bodies E) x = Some y"
    ultimately show "isSuccess y \<longrightarrow> matched y @ rest y = snd x"
      by (cases x) (simp add: splits_input_def)
  qed
  with ok show "matched r @ rest r = s" by simp
qed

lemma built_splits: "built p \<Longrightarrow> splits_input p"
proof (induction p rule: built_built_body.inducts(1)
    [where ?P2.0 = "\<lambda>F. \<forall>E. (\<forall>k. splits_input (E k)) \<longrightarrow> splits_input (F E)"])
  case (built_parseChar c)
  show ?case by (rule splits_parseChar)
next
  case (built_anyOf v p)
  then have "reduce (map parseChar v) orElse = Some p"
    by (simp add: anyOf_def choice_def mapWith_eq)
  then show ?case
    by (rule splits_reduce [rotated 2]) (auto simp add: splits_orElse splits_parseChar)
next
  case (built_parseString v p)
  then have "reduce (map parseChar v) andThen = Some p"
    by (simp add: parseString_def mapWith_eq)
  then show ?case
    by (rule splits_reduce [rotated 2]) (auto simp add: splits_andThen splits_parseChar)
next
  case (built_sequence ps p)
  then have "reduce ps andThen = Some p" "\<forall>q \<in> set ps. splits_input q"
    by (simp_all add: sequence_def)
  then show ?case
    by (intro splits_reduce [of andThen ps p]) (auto simp add: splits_andThen)
next
  case (built_choice ps p)
  then have "reduce ps orElse = Some p" "\<forall>q \<in> set ps. splits_input q"
    by (simp_all add: choice_def)
  then show ?case
    by (intro splits_reduce [of orElse ps p]) (auto simp add: splits_orElse)
next
  case (built_opt q p)
  then show ?case by (auto simp add: opt_eq splits_orElse splits_nullParser)
next
  case (built_listOf w q c p)
  then show ?case
    by (auto simp add: listOf_eq intro!: splits_andThen splits_orElse splits_nullParser
        splits_mapTo splits_many splits_parseChar)
next
  case (built_rule_slots bodies i)
  from built_rule_slots(1) have body: "\<forall>j. built_body (\<lambda>E. bodies E j)"
    and step: "\<forall>k. splits_input (E k) \<Longrightarrow> splits_input (bodies E j)" for E j
    by blast+
  from body step show ?case by (rule rule_slots_splits)
next
  case (body_refParser i)
  show ?case
  proof (intro allI impI)
    fix E :: Slots
    assume "\<forall>k. splits_input (E k)"
    then have "splits_input (E i)" by blast
    then show "splits_input (refParser (E i))" by (rule splits_refParser)
  qed
next
  case (body_andThen A B)
  show ?case
  proof (intro allI impI)
    fix E :: Slots
    assume "\<forall>k. splits_input (E k)"
    with body_andThen(2,4) have "splits_input (A E)" "splits_input (B E)"
      by blast+
    then show "splits_input (andThen (A E) (B E))" by (rule splits_andThen)
  qed
next
  case (body_orElse A B)
  show ?case
  proof (intro allI impI)
    fix E :: Slots
    assume "\<forall>k. splits_input (E k)"
    with body_orElse(2,4) have "splits_input (A E)" "splits_input (B E)"
      by blast+
    then show "splits_input (orElse (A E) (B E))" by (rule splits_orElse)
  qed
next
  case (body_many A)
  show ?case
  proof (intro allI impI)
    fix E :: Slots
    assume "\<forall>k. splits_input (E k)"
    with body_many(2) have "splits_input (A E)"
      by blast
    then show "splits_input (many (A E))" by (rule splits_many)
  qed
next
  case (body_many1 A)
  show ?case
  proof (intro allI impI)
    fix E :: Slots
    assume "\<forall>k. splits_input (E k)"
    with body_many1(2) have "splits_input (A E)"
      by blast
    then show "splits_input (many1 (A E))" by (rule splits_many1)
  qed
next
  case (body_mapTo A n)
  show ?case
  proof (intro allI impI)
    fix E :: Slots
    assume "\<forall>k. splits_input (E k)"
    with body_mapTo(2) have "splits_input (A E)"
      by blast
    then show "splits_input (mapTo (A E) n)" by (rule splits_mapTo)
  qed
next
  case (body_sequence As F)
  show ?case
  proof (intro allI impI)
    fix E :: Slots
    assume "\<forall>k. splits_input (E k)"
    with body_sequence(1) have "\<forall>q \<in> set (map (\<lambda>A. A E) As). splits_input q"
      by auto
    moreover from body_sequence(2) have "reduce (map (\<lambda>A. A E) As) andThen = Some (F E)"
      by (simp add: sequence_def)
    ultimately show "splits_input (F E)"
      by (intro splits_reduce [of andThen "map (\<lambda>A. A E) As" "F E"])
        (auto simp add: splits_andThen)
  qed
next
  case (body_choice As F)
  show ?case
  proof (intro allI impI)
    fix E :: Slots
    assume "\<forall>k. splits_input (E k)"
    with body_choice(1) have "\<forall>q \<in> set (map (\<lambda>A. A E) As). splits_input q"
      by auto
    moreover from body_choice(2) have "reduce (map (\<lambda>A. A E) As) orElse = Some (F E)"
      by (simp add: choice_def)
    ultimately show "splits_input (F E)"
      by (intro splits_reduce [of orElse "map (\<lambda>A. A E) As" "F E"])
        (auto simp add: splits_orElse)
  qed
next
  case (body_opt A F)
  show ?case
  proof (intro allI impI)
    fix E :: Slots
    assume "\<forall>k. splits_input (E k)"
    with body_opt(2) have "splits_input (A E)"
      by blast
    moreover from body_opt(3) have "F E = orElse (A E) nullParser"
      by (simp add: opt_eq)
    ultimately show "splits_input (F E)"
      by (simp add: splits_orElse splits_nullParser)
  qed
next
  case (body_listOf W A c F)
  show ?case
  proof (intro allI impI)
    fix E :: Slots
    assume "\<forall>k. splits_input (E k)"
    with body_listOf(2,4) have "splits_input (W E)" "splits_input (A E)"
      by blast+
    moreover from body_listOf(5)
    have "F E = andThen (mapTo (orElse (andThen (W E) (A E)) nullParser) ''item'')
             (many (andThen (andThen (andThen (W E) (parseChar c)) (W E)) (A E)))"
      by (simp add: listOf_eq)
    ultimately show "splits_input (F E)"
      by (simp add: splits_andThen splits_orElse splits_nullParser splits_mapTo splits_many
          splits_parseChar)
  qed
qed (simp_all add: splits_andThen splits_orElse splits_many splits_many1 splits_nullParser
    splits_mapTo splits_refParser)

text \<open>
  C6. For every parser built from the exposed constructors and combinators (\<open>parseChar\<close>,
  \<open>anyOf\<close>, \<open>parseString\<close>, \<open>andThen\<close>, \<open>sequence\<close>, \<open>orElse\<close>, \<open>choice\<close>, \<open>many\<close>,
  \<open>many1\<close>, \<open>opt\<close>, \<open>nullParser\<close>, \<open>mapTo\<close>, \<open>listOf\<close>, and \<open>refParser\<close> of a populated
  slot, the rules of self-recursive and mutually recursive grammars included) and every
  input: whenever the parser returns a success, its matched text is a prefix of the input,
  and the matched text followed by the rest is the input.
\<close>

theorem built_parser_splits_input:
  "built p \<Longrightarrow> p s = Some r \<Longrightarrow> isSuccess r \<Longrightarrow> prefix (matched r) s \<and> matched r @ rest r = s"
  using built_splits [of p] by (auto simp add: splits_input_def prefix_def)

theorem built_parser_splits_input_witness:
  "built (andThen (many (parseChar CHR ''a'')) (parseChar CHR ''b''))
   \<and> andThen (many (parseChar CHR ''a'')) (parseChar CHR ''b'') ''aabc'' =
       Some \<lparr>status = Success, matched = ''aab'', rest = ''c'', error = [], results = []\<rparr>
   \<and> prefix ''aab'' ''aabc'' \<and> ''aab'' @ ''c'' = ''aabc''
   \<and> built (rule_slots (\<lambda>E i.
         if i = 0
         then orElse
           (andThen (andThen (parseChar CHR ''('') (refParser (E (Suc 0)))) (parseChar CHR '')''))
           (parseChar CHR ''a'')
         else orElse
           (andThen (andThen (refParser (E 0)) (parseChar CHR '','')) (refParser (E (Suc 0))))
           (refParser (E 0))) 0)
   \<and> rule_slots (\<lambda>E i.
         if i = 0
         then orElse
           (andThen (andThen (parseChar CHR ''('') (refParser (E (Suc 0)))) (parseChar CHR '')''))
           (parseChar CHR ''a'')
         else orElse
           (andThen (andThen (refParser (E 0)) (parseChar CHR '','')) (refParser (E (Suc 0))))
           (refParser (E 0))) 0 ''(a,a)x'' =
       Some \<lparr>status = Success, matched = ''(a,a)'', rest = ''x'', error = [], results = []\<rparr>
   \<and> prefix ''(a,a)'' ''(a,a)x'' \<and> ''(a,a)'' @ ''x'' = ''(a,a)x''"
proof -
  let ?p = "andThen (many (parseChar CHR ''a'')) (parseChar CHR ''b'')"
  let ?r = "\<lparr>status = Success, matched = ''aab'', rest = ''c'', error = [], results = []\<rparr>"
  let ?A = "\<lambda>E :: Slots. orElse
      (andThen (andThen (parseChar CHR ''('') (refParser (E (Suc 0)))) (parseChar CHR '')''))
      (parseChar CHR ''a'')"
  let ?B = "\<lambda>E :: Slots. orElse
      (andThen (andThen (refParser (E 0)) (parseChar CHR '','')) (refParser (E (Suc 0))))
      (refParser (E 0))"
  let ?G = "\<lambda>(E :: Slots) (i :: nat). if i = 0 then ?A E else ?B E"
  let ?y = "\<lparr>status = Success, matched = ''(a,a)'', rest = ''x'', error = [], results = []\<rparr>"
  have b1: "built ?p"
    by (intro built_andThen built_many built_parseChar)
  have e1: "?p ''aabc'' = Some ?r"
    by code_simp
  have s1: "isSuccess ?r"
    by (simp add: isSuccess_def)
  have bodyA: "built_body ?A"
    by (intro body_orElse body_andThen body_refParser body_const built_parseChar)
  have bodyB: "built_body ?B"
    by (intro body_orElse body_andThen body_refParser body_const built_parseChar)
  have bodies: "\<forall>j. built_body (\<lambda>E. ?G E j)"
  proof
    fix j :: nat
    show "built_body (\<lambda>E. ?G E j)"
      using bodyA bodyB by (cases "j = 0") simp_all
  qed
  have b2: "built (rule_slots ?G 0)"
    using bodies by (rule built_rule_slots)
  define S where "S = rule_slots ?G"
  have "S = ?G S"
    unfolding S_def using bodies by (rule rule_slots_unfold)
  then have g: "S i s = (if i = 0 then ?A S else ?B S) s" for i s
    by (rule fun_cong [OF fun_cong])
  have u0: "S 0 s = ?A S s" for s
    using g [of 0 s] by simp
  have u1: "S (Suc 0) s = ?B S s" for s
    using g [of "Suc 0" s] by simp
  have e2: "S 0 ''a,a)x'' =
      Some \<lparr>status = Success, matched = ''a'', rest = '',a)x'', error = [], results = []\<rparr>"
    by (subst u0)
      (simp add: orElse_apply andThen_apply parseChar_def Let_def success_def failure_def
        isSuccess_def isFailure_def)
  have e3: "S 0 ''a)x'' =
      Some \<lparr>status = Success, matched = ''a'', rest = '')x'', error = [], results = []\<rparr>"
    by (subst u0)
      (simp add: orElse_apply andThen_apply parseChar_def Let_def success_def failure_def
        isSuccess_def isFailure_def)
  have e4: "S (Suc 0) ''a)x'' =
      Some \<lparr>status = Success, matched = ''a'', rest = '')x'', error = [], results = []\<rparr>"
    by (subst u1)
      (simp add: e3 refParser_def orElse_apply andThen_apply parseChar_def Let_def success_def
        failure_def isSuccess_def isFailure_def)
  have e5: "S (Suc 0) ''a,a)x'' =
      Some \<lparr>status = Success, matched = ''a,a'', rest = '')x'', error = [], results = []\<rparr>"
    by (subst u1)
      (simp add: e2 e4 refParser_def orElse_apply andThen_apply parseChar_def Let_def
        success_def failure_def isSuccess_def isFailure_def)
  have "S 0 ''(a,a)x'' = Some ?y"
    by (subst u0)
      (simp add: e5 refParser_def orElse_apply andThen_apply parseChar_def Let_def success_def
        failure_def isSuccess_def isFailure_def)
  then have e6: "rule_slots ?G 0 ''(a,a)x'' = Some ?y"
    by (simp add: S_def)
  have s2: "isSuccess ?y"
    by (simp add: isSuccess_def)
  from built_parser_splits_input [OF b1 e1 s1] built_parser_splits_input [OF b2 e6 s2]
    b1 e1 b2 e6
  show ?thesis by simp
qed

end
